theory Spec2Isabelle
  imports Complex_Main "HOL-Library.AList"
begin

section \<open>Values, errors and promises\<close>

text \<open>
  Nest names are JavaScript strings.  Errors are the three classes the program
  constructs or provokes: \<^verbatim>\<open>new Timeout(msg)\<close>, \<^verbatim>\<open>new Error(msg)\<close> and the
  \<^verbatim>\<open>TypeError\<close> the engine raises when something that is not a function is called.
\<close>

type_synonym name = string

datatype js_error = Timeout string | Error string | TypeError string

text \<open>
  The payloads that travel in requests: \<^verbatim>\<open>null\<close>/\<^verbatim>\<open>undefined\<close>, a string, the
  object \<^verbatim>\<open>{name, neighbors}\<close> of a "connections" request (\<^verbatim>\<open>neighbors\<close> is
  what \<^verbatim>\<open>connections.get(name)\<close> gave, so it may be \<^verbatim>\<open>undefined\<close>), and the
  object \<^verbatim>\<open>{target, type, content}\<close> of a "route" request.
\<close>

datatype content =
    Null
  | Str string
  | Connections name "name list option"
  | RouteEnv name string content

text \<open>A promise is modelled by what it eventually becomes; \<open>Pending\<close> never settles.\<close>

datatype 'v promise = Pending | Fulfilled 'v | Rejected js_error

text \<open>
  A call \<^verbatim>\<open>request(nest, target, type, content)\<close>, as seen from the code that
  issues it: the message handed to the retry engine.
\<close>

datatype outgoing = Request (rq_target: name) (rq_type: string) (rq_content: content)

text \<open>
  A nest: \<^verbatim>\<open>nest.name\<close>, \<^verbatim>\<open>nest.neighbors\<close>, \<^verbatim>\<open>nest.state.gossip\<close> (an array),
  \<^verbatim>\<open>nest.state.connections\<close> (a \<^verbatim>\<open>Map\<close>, kept as an association list in insertion
  order) and the local storage that \<^verbatim>\<open>nest.readStorage\<close> reads.
\<close>

record nest =
  name :: name
  neighbors :: "name list"
  gossip :: "string list"
  connections :: "(name \<times> name list) list"
  local_storage :: "string \<rightharpoonup> content"

section \<open>Group\<close>

text \<open>
  \<^verbatim>\<open>class Group { constructor() { this.members = []; } add(m) { this.members.add(m); } }\<close>

  \<open>members\<close> is an array.  \<open>Array_method\<close> looks a method name up on an
  array, for calls with one element that add it: \<^verbatim>\<open>push\<close> and \<^verbatim>\<open>unshift\<close> are
  such methods of an array; \<^verbatim>\<open>add\<close> is no property of an array or of its
  prototypes, so the lookup gives \<^verbatim>\<open>undefined\<close>, and calling that raises a
  \<^verbatim>\<open>TypeError\<close>.
\<close>

record 'a Group =
  members :: "'a list"

definition Group_constructor :: "'a Group" where
  "Group_constructor = \<lparr>members = []\<rparr>"

definition Array_method :: "string \<Rightarrow> ('a list \<Rightarrow> 'a \<Rightarrow> 'a list) option" where
  "Array_method m =
     (if m = ''push'' then Some (\<lambda>xs x. xs @ [x])
      else if m = ''unshift'' then Some (\<lambda>xs x. x # xs)
      else None)"

definition add :: "'a Group \<Rightarrow> 'a \<Rightarrow> js_error + 'a Group" where
  "add this m =
     (case Array_method ''add'' of
        None \<Rightarrow> Inl (TypeError ''this.members.add is not a function'')
      | Some f \<Rightarrow> Inr (this\<lparr>members := f (members this) m\<rparr>))"

text \<open>A run of \<open>add\<close> calls on one group; it stops at the first call that raises.\<close>

fun add_all :: "'a Group \<Rightarrow> 'a list \<Rightarrow> js_error + 'a Group" where
  "add_all g [] = Inr g"
| "add_all g (m # ms) = (case add g m of Inl e \<Rightarrow> Inl e | Inr g' \<Rightarrow> add_all g' ms)"

section \<open>Gossip\<close>

text \<open>
  \<^verbatim>\<open>for (let neighbor of nest.neighbors) { if (neighbor == exceptFor) continue;
  request(nest, neighbor, type, content); }\<close>: the loop shared by \<open>sendGossip\<close> and
  \<open>broadcastConnections\<close>.  \<open>exceptFor\<close> defaults to \<^verbatim>\<open>null\<close>, which no name equals.
\<close>

fun broadcast_loop :: "name list \<Rightarrow> name option \<Rightarrow> string \<Rightarrow> content \<Rightarrow> outgoing list" where
  "broadcast_loop [] exceptFor ty c = []"
| "broadcast_loop (neighbor # rest) exceptFor ty c =
     (if Some neighbor = exceptFor then broadcast_loop rest exceptFor ty c
      else Request neighbor ty c # broadcast_loop rest exceptFor ty c)"

text \<open>
  \<open>sendGossip\<close> pushes the message on \<^verbatim>\<open>nest.state.gossip\<close> and issues the requests;
  the promises of the requests are dropped.  The result is the nest after the call and
  the requests issued, in order.
\<close>

definition sendGossip :: "nest \<Rightarrow> string \<Rightarrow> name option \<Rightarrow> nest \<times> outgoing list" where
  "sendGossip nest message exceptFor =
     (nest\<lparr>gossip := gossip nest @ [message]\<rparr>,
      broadcast_loop (neighbors nest) exceptFor ''gossip'' (Str message))"

text \<open>
  The handler registered for "gossip":
  \<^verbatim>\<open>if (nest.state.gossip.includes(message)) return; sendGossip(nest, message, source);\<close>
\<close>

definition gossip_handler :: "nest \<Rightarrow> string \<Rightarrow> name \<Rightarrow> nest \<times> outgoing list" where
  "gossip_handler nest message source =
     (if message \<in> set (gossip nest) then (nest, [])
      else sendGossip nest message (Some source))"

text \<open>
  A nest handling a sequence of incoming "gossip" requests (message, source), one
  handler call after the other; the requests issued are collected in order.
\<close>

fun gossip_run :: "nest \<Rightarrow> (string \<times> name) list \<Rightarrow> nest \<times> outgoing list" where
  "gossip_run nest [] = (nest, [])"
| "gossip_run nest ((message, source) # evs) =
     (let (nest', out) = gossip_handler nest message source;
          (nest'', outs) = gossip_run nest' evs
      in (nest'', out @ outs))"

section \<open>Request types\<close>

text \<open>
  What a handler can raise, or reject its promise with: any JavaScript value.  An
  \<^verbatim>\<open>Error\<close> object (as every other object) is truthy; \<^verbatim>\<open>undefined\<close>, \<^verbatim>\<open>null\<close>,
  \<^verbatim>\<open>false\<close>, the number 0 and the empty string are falsy.
\<close>

datatype reason =
    Raised js_error
  | Undefined
  | Null_value
  | Boolean bool
  | Number int
  | Text string

definition truthy :: "reason \<Rightarrow> bool" where
  "truthy r =
     (case r of
        Raised e \<Rightarrow> True
      | Undefined \<Rightarrow> False
      | Null_value \<Rightarrow> False
      | Boolean b \<Rightarrow> b
      | Number n \<Rightarrow> n \<noteq> 0
      | Text s \<Rightarrow> s \<noteq> [])"

text \<open>
  The promise a handler returns, by what it becomes: it never settles, it is resolved
  with a value, or it is rejected with a reason.
\<close>

datatype 'v handler_promise = Unsettled | Resolved 'v | Rejected_with reason

text \<open>
  What a handler call \<^verbatim>\<open>handler(nest, content, source)\<close> does: it raises
  (\<open>Inl\<close>), or it returns a plain value or a promise.
\<close>

datatype 'v js_value = Plain 'v | Promise "'v handler_promise"

type_synonym 'v handler = "nest \<Rightarrow> content \<Rightarrow> name \<Rightarrow> reason + 'v js_value"

text \<open>\<^verbatim>\<open>Promise.resolve(x)\<close>: a promise is taken as it is, a plain value is resolved.\<close>

definition Promise_resolve :: "'v js_value \<Rightarrow> 'v handler_promise" where
  "Promise_resolve x = (case x of Plain v \<Rightarrow> Resolved v | Promise p \<Rightarrow> p)"

text \<open>
  One call of the completion callback, with its two arguments:
  \<^verbatim>\<open>callback(null, response)\<close> is \<open>Callback Null_value (Some response)\<close> and
  \<^verbatim>\<open>callback(failure)\<close> is \<open>Callback failure None\<close>, the second argument being
  \<^verbatim>\<open>undefined\<close>.
\<close>

datatype 'v callback_call = Callback reason "'v option"

type_synonym 'v hook = "nest \<Rightarrow> content \<Rightarrow> name \<Rightarrow> 'v callback_call option"

text \<open>
  The function that \<open>requestType\<close> hands to \<open>defineRequestType\<close>:
  \<^verbatim>\<open>try { Promise.resolve(handler(nest, content, source))
          .then(response => callback(null, response), failure => callback(failure)); }
  catch (exception) { callback(exception); }\<close>
  The result is the call of \<open>callback\<close> that it leads to, \<open>None\<close> when the
  handler's promise never settles.
\<close>

definition requestType_hook :: "'v handler \<Rightarrow> 'v hook" where
  "requestType_hook handler nest c source =
     (case handler nest c source of
        Inl exception \<Rightarrow> Some (Callback exception None)
      | Inr x \<Rightarrow>
          (case Promise_resolve x of
             Resolved response \<Rightarrow> Some (Callback Null_value (Some response))
           | Rejected_with failure \<Rightarrow> Some (Callback failure None)
           | Unsettled \<Rightarrow> None))"

text \<open>
  How the callback is read where the request was made, as the callback that
  \<open>request\<close> gives to \<^verbatim>\<open>nest.send\<close> does:
  \<^verbatim>\<open>(failed, value) => { ...; if (failed) reject(failed); else resolve(value); }\<close>
\<close>

datatype 'v completion = Success "'v option" | Failure reason

definition error_first :: "'v callback_call \<Rightarrow> 'v completion" where
  "error_first call =
     (case call of Callback f v \<Rightarrow> if truthy f then Failure f else Success v)"

text \<open>
  Modelled from the spec: \<open>defineRequestType\<close> belongs to the module
  \<^verbatim>\<open>./crow-tech\<close>, which is not among the sources.  The spec has the Dispatcher as
  "a process-wide mapping from request-type name to handler", so registering is an
  update of that mapping.
\<close>

definition defineRequestType :: "string \<Rightarrow> 'h \<Rightarrow> (string \<rightharpoonup> 'h) \<Rightarrow> (string \<rightharpoonup> 'h)" where
  "defineRequestType nm h registry = registry(nm \<mapsto> h)"

definition requestType :: "string \<Rightarrow> 'v handler \<Rightarrow> (string \<rightharpoonup> 'v hook) \<Rightarrow> (string \<rightharpoonup> 'v hook)" where
  "requestType nm handler registry = defineRequestType nm (requestType_hook handler) registry"

text \<open>\<^verbatim>\<open>requestType("ping", () => "pong")\<close>\<close>

definition ping_handler :: "content handler" where
  "ping_handler nest c source = Inr (Plain (Str ''pong''))"

section \<open>Routing\<close>

text \<open>
  An entry of the array \<open>work\<close> in \<open>findRoute\<close>: \<^verbatim>\<open>{at, via}\<close>, with
  \<open>via\<close> a name or \<^verbatim>\<open>null\<close>.
\<close>

record work_item =
  at_nest :: name
  via :: "name option"

text \<open>
  JavaScript truthiness of a value that is a string or \<^verbatim>\<open>null\<close>: \<^verbatim>\<open>null\<close> and the
  empty string are falsy.  \<open>js_or via next\<close> is \<^verbatim>\<open>via || next\<close>.
\<close>

definition falsy :: "name option \<Rightarrow> bool" where
  "falsy v = (v = None \<or> v = Some [])"

definition js_or :: "name option \<Rightarrow> name \<Rightarrow> name option" where
  "js_or v next = (if falsy v then Some next else v)"

text \<open>\<^verbatim>\<open>connections.get(at) || []\<close> (an array is truthy, also when empty).\<close>

definition get_or_empty :: "(name \<times> name list) list \<Rightarrow> name \<Rightarrow> name list" where
  "get_or_empty conns a = (case map_of conns a of None \<Rightarrow> [] | Some ns \<Rightarrow> ns)"

text \<open>
  The inner loop \<^verbatim>\<open>for (let next of ...)\<close> of \<open>findRoute\<close> over the remaining
  neighbours: it returns from \<open>findRoute\<close> with \<open>via\<close>, or runs to its end with the
  array \<open>work\<close> as it then is.
\<close>

datatype scan_result = Return "name option" "work_item list" | Continue "work_item list"

fun scan :: "name \<Rightarrow> name option \<Rightarrow> name list \<Rightarrow> work_item list \<Rightarrow> scan_result" where
  "scan to v [] work = Continue work"
| "scan to v (next # rest) work =
     (if next = to then Return v work
      else if \<not> list_ex (\<lambda>w. at_nest w = next) work
        then scan to v rest (work @ [\<lparr>at_nest = next, via = js_or v next\<rparr>])
        else scan to v rest work)"

text \<open>All names that occur in a neighbour list of the table.\<close>

definition listed :: "(name \<times> name list) list \<Rightarrow> name set" where
  "listed conns = (\<Union>ns \<in> snd ` set conns. set ns)"

lemma scan_measure:
  "scan to v ns work = Continue work' \<Longrightarrow> set ns \<subseteq> U \<Longrightarrow> finite U \<Longrightarrow>
   card (U - at_nest ` set work') + length work' = card (U - at_nest ` set work) + length work"
proof (induction ns arbitrary: work)
  case Nil
  then show ?case by simp
next
  case (Cons n ns)
  show ?case
  proof (cases "n = to")
    case True
    with Cons.prems show ?thesis by simp
  next
    case False
    show ?thesis
    proof (cases "n \<in> at_nest ` set work")
      case True
      then have "list_ex (\<lambda>w. at_nest w = n) work" by (auto simp: list_ex_iff)
      with Cons.prems False have "scan to v ns work = Continue work'" by simp
      then show ?thesis using Cons.prems by (intro Cons.IH) auto
    next
      case fresh: False
      let ?work = "work @ [\<lparr>at_nest = n, via = js_or v n\<rparr>]"
      from fresh have "\<not> list_ex (\<lambda>w. at_nest w = n) work" by (auto simp: list_ex_iff)
      with Cons.prems False have "scan to v ns ?work = Continue work'" by simp
      then have "card (U - at_nest ` set work') + length work'
          = card (U - at_nest ` set ?work) + length ?work"
        using Cons.prems by (intro Cons.IH) auto
      moreover have "n \<in> U - at_nest ` set work" using Cons.prems fresh by auto
      then have "card (U - at_nest ` set work) = Suc (card (U - at_nest ` set work - {n}))"
        using \<open>finite U\<close> card_Suc_Diff1 [of "U - at_nest ` set work" n] by simp
      moreover have "U - at_nest ` set ?work = U - at_nest ` set work - {n}" by auto
      ultimately show ?thesis by simp
    qed
  qed
qed

lemma scan_length: "scan to v ns work = Continue work' \<Longrightarrow> length work \<le> length work'"
proof (induction ns arbitrary: work)
  case Nil
  then show ?case by simp
next
  case (Cons n ns)
  show ?case
  proof (cases "n = to")
    case True
    with Cons.prems show ?thesis by simp
  next
    case False
    show ?thesis
    proof (cases "list_ex (\<lambda>w. at_nest w = n) work")
      case True
      with Cons.prems False have "scan to v ns work = Continue work'" by simp
      from Cons.IH [OF this] show ?thesis .
    next
      case fresh: False
      with Cons.prems False
      have "scan to v ns (work @ [\<lparr>at_nest = n, via = js_or v n\<rparr>]) = Continue work'" by simp
      from Cons.IH [OF this] show ?thesis by simp
    qed
  qed
qed

lemma get_or_empty_listed: "set (get_or_empty conns a) \<subseteq> listed conns"
proof (cases "map_of conns a")
  case None
  then show ?thesis by (simp add: get_or_empty_def)
next
  case (Some ns)
  then have "(a, ns) \<in> set conns" by (rule map_of_SomeD)
  then have "ns \<in> snd ` set conns" by force
  then show ?thesis using Some by (auto simp: get_or_empty_def listed_def)
qed

text \<open>
  The outer loop \<^verbatim>\<open>for (let i = 0; i < work.length; i++)\<close>.  The result is the
  value \<open>findRoute\<close> returns, with the array \<open>work\<close> as it is at the return.
\<close>

function findRoute_loop ::
  "name \<Rightarrow> (name \<times> name list) list \<Rightarrow> nat \<Rightarrow> work_item list \<Rightarrow> name option \<times> work_item list" where
  "findRoute_loop to conns i work =
     (if i < length work then
        (case scan to (via (work ! i)) (get_or_empty conns (at_nest (work ! i))) work of
           Return v work' \<Rightarrow> (v, work')
         | Continue work' \<Rightarrow> findRoute_loop to conns (i + 1) work')
      else (None, work))"
  by pat_completeness auto
termination
proof (relation "measure (\<lambda>(to, conns, i, work).
    card (listed conns - at_nest ` set work) + (length work - i))")
  show "wf (measure (\<lambda>(to, conns, i, work).
    card (listed conns - at_nest ` set work) + (length work - i)))" by simp
next
  fix to :: name and conns :: "(name \<times> name list) list" and i :: nat
    and work work' :: "work_item list"
  assume i: "i < length work"
    and sc: "scan to (via (work ! i)) (get_or_empty conns (at_nest (work ! i))) work
      = Continue work'"
  have "finite (listed conns)" by (simp add: listed_def)
  from scan_measure [OF sc get_or_empty_listed this] scan_length [OF sc] i
  show "((to, conns, i + 1, work'), (to, conns, i, work))
    \<in> measure (\<lambda>(to, conns, i, work).
      card (listed conns - at_nest ` set work) + (length work - i))"
    by simp
qed

declare findRoute_loop.simps [simp del]

definition findRoute_run ::
  "name \<Rightarrow> name \<Rightarrow> (name \<times> name list) list \<Rightarrow> name option \<times> work_item list" where
  "findRoute_run from to conns =
     findRoute_loop to conns 0 [\<lparr>at_nest = from, via = None\<rparr>]"

definition findRoute :: "name \<Rightarrow> name \<Rightarrow> (name \<times> name list) list \<Rightarrow> name option" where
  "findRoute from to conns = fst (findRoute_run from to conns)"

text \<open>
  \<open>routeRequest\<close> raises (\<open>Inl\<close>: \<^verbatim>\<open>throw new Error(...)\<close>, no promise is
  returned) or returns the promise of a \<open>request\<close> call, given here by the request
  that is made.  \<^verbatim>\<open>!via\<close> is true for \<^verbatim>\<open>null\<close> and for the empty string.
\<close>

definition routeRequest :: "nest \<Rightarrow> name \<Rightarrow> string \<Rightarrow> content \<Rightarrow> js_error + outgoing" where
  "routeRequest nest target ty c =
     (if target \<in> set (neighbors nest) then Inr (Request target ty c)
      else
        (case findRoute (name nest) target (connections nest) of
           None \<Rightarrow> Inl (Error (''No route to '' @ target))
         | Some v \<Rightarrow>
             if v = [] then Inl (Error (''No route to '' @ target))
             else Inr (Request v ''route'' (RouteEnv target ty c))))"

text \<open>
  The handler registered for "route":
  \<^verbatim>\<open>(nest, {target, type, content}) => routeRequest(nest, target, type, content)\<close>,
  on the three fields of the content it receives.
\<close>

definition route_handler :: "nest \<Rightarrow> name \<Rightarrow> string \<Rightarrow> content \<Rightarrow> js_error + outgoing" where
  "route_handler nest target ty c = routeRequest nest target ty c"

section \<open>The retry engine\<close>

text \<open>
  What the transport does with the \<open>n\<close>-th call of \<^verbatim>\<open>nest.send\<close> of one \<open>request\<close>:
  it never calls the callback (\<open>None\<close>), or it calls
  \<^verbatim>\<open>callback(failed, value)\<close> \<open>delay\<close> time units after the call.
\<close>

record 'v reply =
  delay :: nat
  failed :: "js_error option"
  reply_value :: 'v

type_synonym 'v transport = "nat \<Rightarrow> 'v reply option"

text \<open>
  The state of one \<open>request\<close>: the flag \<open>done\<close>, the promise with the time at which
  it settled, the calls of \<^verbatim>\<open>nest.send\<close> made (time, attempt number), and the
  callbacks the transport is still to call (time due, arguments).
\<close>

record 'v request_state =
  is_done :: bool
  outcome :: "'v promise"
  settled_at :: "nat option"
  sends :: "(nat \<times> nat) list"
  in_flight :: "(nat \<times> js_error option \<times> 'v) list"

text \<open>\<^verbatim>\<open>resolve\<close> and \<^verbatim>\<open>reject\<close> settle a promise once; later calls do nothing.\<close>

definition settle :: "'v promise \<Rightarrow> nat \<Rightarrow> 'v request_state \<Rightarrow> 'v request_state" where
  "settle p t st = (if outcome st = Pending then st\<lparr>outcome := p, settled_at := Some t\<rparr> else st)"

text \<open>
  The callback given to \<^verbatim>\<open>nest.send\<close>:
  \<^verbatim>\<open>done = true; if (failed) reject(failed); else resolve(value);\<close>
\<close>

definition callback :: "nat \<Rightarrow> js_error option \<Rightarrow> 'v \<Rightarrow> 'v request_state \<Rightarrow> 'v request_state" where
  "callback t f v st =
     (case f of
        Some e \<Rightarrow> settle (Rejected e) t (st\<lparr>is_done := True\<rparr>)
      | None \<Rightarrow> settle (Fulfilled v) t (st\<lparr>is_done := True\<rparr>))"

text \<open>
  The callbacks due up to time \<open>t\<close> run, the earliest first.  A callback due at the
  very time a timer fires runs before the timer: its own timer was set earlier.
\<close>

definition deliver :: "nat \<Rightarrow> 'v request_state \<Rightarrow> 'v request_state" where
  "deliver t st =
     foldl (\<lambda>s (d, f, v). callback d f v s)
       (st\<lparr>in_flight := filter (\<lambda>(d, f, v). \<not> d \<le> t) (in_flight st)\<rparr>)
       (sort_key fst (filter (\<lambda>(d, f, v). d \<le> t) (in_flight st)))"

text \<open>
  \<^verbatim>\<open>function attempt(n) { nest.send(target, type, content, callback);
  setTimeout(() => { if (done) return; else if (n < 3) attempt(n + 1);
  else reject(new Timeout("Timed out")); }, 250); }\<close>
  called at time \<open>t\<close>; the timer fires at \<open>t + 250\<close>.
\<close>

function attempt :: "'v transport \<Rightarrow> nat \<Rightarrow> nat \<Rightarrow> 'v request_state \<Rightarrow> 'v request_state" where
  "attempt send n t st =
     (let st1 = st\<lparr>sends := sends st @ [(t, n)],
                   in_flight := in_flight st @
                     (case send n of None \<Rightarrow> []
                      | Some r \<Rightarrow> [(t + delay r, failed r, reply_value r)])\<rparr>;
          st2 = deliver (t + 250) st1
      in if is_done st2 then st2
         else if n < 3 then attempt send (n + 1) (t + 250) st2
         else settle (Rejected (Timeout ''Timed out'')) (t + 250) st2)"
  by pat_completeness auto
termination
  by (relation "measure (\<lambda>(send, n, t, st). 3 - n)") auto

declare attempt.simps [simp del]

text \<open>
  \<open>request\<close>, called at time \<open>t0\<close>: \<^verbatim>\<open>attempt(1)\<close> on a fresh promise.  The callbacks
  that are still to come when the last timer has fired run afterwards.
\<close>

definition request :: "'v transport \<Rightarrow> nat \<Rightarrow> 'v request_state" where
  "request send t0 =
     (let st = attempt send 1 t0
           \<lparr>is_done = False, outcome = Pending, settled_at = None, sends = [], in_flight = []\<rparr>
      in foldl (\<lambda>s (d, f, v). callback d f v s) (st\<lparr>in_flight := []\<rparr>)
           (sort_key fst (in_flight st)))"

text \<open>Once \<open>done\<close> is set the promise has been settled.\<close>

definition settled_if_done :: "'v request_state \<Rightarrow> bool" where
  "settled_if_done st \<longleftrightarrow> (is_done st \<longrightarrow> outcome st \<noteq> Pending)"

section \<open>Promise\_all\<close>






section \<open>Distributed lookup\<close>

text \<open>
  \<open>storage\<close>: a promise resolved with what \<^verbatim>\<open>nest.readStorage\<close> passes to its
  callback, the value stored under the name, or \<^verbatim>\<open>undefined\<close>.
\<close>

definition storage :: "nest \<Rightarrow> string \<Rightarrow> content promise" where
  "storage nest key = Fulfilled (case local_storage nest key of None \<Rightarrow> Null | Some v \<Rightarrow> v)"

text \<open>\<^verbatim>\<open>Array.from(nest.state.connections.keys())\<close>\<close>

definition network :: "nest \<Rightarrow> name list" where
  "network nest = map fst (connections nest)"

text \<open>
  What a callback given to \<^verbatim>\<open>then\<close> makes of the promise that \<^verbatim>\<open>then\<close> returned,
  when the callback ends as a call of a function that raises or returns a promise: a
  raise rejects it, a returned promise is followed.
\<close>

definition adopt :: "js_error + 'v promise \<Rightarrow> 'v promise" where
  "adopt r = (case r of Inl e \<Rightarrow> Rejected e | Inr p \<Rightarrow> p)"

text \<open>
  The function \<open>next\<close> inside \<open>findInRemoteStorage\<close>, with the array \<open>sources\<close> as
  an argument.  \<open>random k\<close> is what the \<open>k\<close>-th call of \<^verbatim>\<open>Math.random()\<close> returns;
  \<open>engine\<close> gives what the promise of a \<open>request\<close> becomes.  The result is \<open>Inl\<close>
  when the call raises and \<open>Inr\<close> with the promise it returns otherwise.
  \<^verbatim>\<open>routeRequest(...).then(value => value != null ? value : next(), next)\<close> has
  \<open>next\<close> as the handler for a rejected promise; when \<open>routeRequest\<close> itself raises
  there is no promise, and the exception leaves \<open>next\<close>.
  An index outside the array gives \<^verbatim>\<open>undefined\<close> for \<open>source\<close>, to which no route
  is found.
\<close>

function next_source ::
  "(nat \<Rightarrow> real) \<Rightarrow> (outgoing \<Rightarrow> content promise) \<Rightarrow> nest \<Rightarrow> string \<Rightarrow> nat \<Rightarrow> name list
     \<Rightarrow> js_error + content promise" where
  "next_source random engine nest key k sources =
     (if length sources = 0 then Inr (Rejected (Error ''Not found''))
      else
        (let idx = \<lfloor>random k * real (length sources)\<rfloor> in
         if 0 \<le> idx \<and> idx < int (length sources) then
           (let source = sources ! nat idx;
                sources' = filter (\<lambda>n. n \<noteq> source) sources
            in case routeRequest nest source ''storage'' (Str key) of
                 Inl e \<Rightarrow> Inl e
               | Inr rq \<Rightarrow>
                   (case engine rq of
                      Fulfilled v \<Rightarrow>
                        if v \<noteq> Null then Inr (Fulfilled v)
                        else Inr (adopt (next_source random engine nest key (k + 1) sources'))
                    | Rejected e \<Rightarrow>
                        Inr (adopt (next_source random engine nest key (k + 1) sources'))
                    | Pending \<Rightarrow> Inr Pending))
         else Inl (Error ''No route to undefined'')))"
  by pat_completeness auto
termination
proof (relation "measure (\<lambda>(random, engine, nest, key, k, sources). length sources)")
  show "wf (measure (\<lambda>(random, engine, nest, key, k, sources). length (sources :: name list)))"
    by simp
  have shorter: "length (filter (\<lambda>n. n \<noteq> sources ! nat idx) sources) < length sources"
    if "0 \<le> idx \<and> idx < int (length sources)" for idx :: int and sources :: "name list"
  proof -
    from that have "nat idx < length sources" by linarith
    then have "sources ! nat idx \<in> set sources" by (rule nth_mem)
    then show ?thesis
      by (rule length_filter_less) simp
  qed
  show "((random, engine, nest, key, k + 1, sources'), (random, engine, nest, key, k, sources))
    \<in> measure (\<lambda>(random, engine, nest, key, k, sources). length sources)"
    if "0 \<le> idx \<and> idx < int (length sources)" "source = sources ! nat idx"
      "sources' = filter (\<lambda>n. n \<noteq> source) sources"
    for random :: "nat \<Rightarrow> real" and engine :: "outgoing \<Rightarrow> content promise" and nest :: nest
      and key :: string and k :: nat and sources sources' :: "name list" and idx :: int
      and source :: name
    using shorter [OF that(1)] that(2,3) by simp
  then show "((random, engine, nest, key, k + 1, sources'), (random, engine, nest, key, k, sources))
    \<in> measure (\<lambda>(random, engine, nest, key, k, sources). length sources)"
    if "0 \<le> idx \<and> idx < int (length sources)" "source = sources ! nat idx"
      "sources' = filter (\<lambda>n. n \<noteq> source) sources"
    for random :: "nat \<Rightarrow> real" and engine :: "outgoing \<Rightarrow> content promise" and nest :: nest
      and key :: string and k :: nat and sources sources' :: "name list" and idx :: int
      and source :: name
    using that by blast
qed

declare next_source.simps [simp del]

definition findInRemoteStorage ::
  "(nat \<Rightarrow> real) \<Rightarrow> (outgoing \<Rightarrow> content promise) \<Rightarrow> nest \<Rightarrow> string \<Rightarrow> js_error + content promise" where
  "findInRemoteStorage random engine nest key =
     next_source random engine nest key 0 (filter (\<lambda>n. n \<noteq> name nest) (network nest))"

text \<open>
  \<^verbatim>\<open>storage(nest, name).then(found => { if (found != null) return found;
  else return findInRemoteStorage(nest, name); })\<close>
\<close>

definition findInStorage ::
  "(nat \<Rightarrow> real) \<Rightarrow> (outgoing \<Rightarrow> content promise) \<Rightarrow> nest \<Rightarrow> string \<Rightarrow> content promise" where
  "findInStorage random engine nest key =
     (case storage nest key of
        Fulfilled found \<Rightarrow>
          if found \<noteq> Null then Fulfilled found
          else adopt (findInRemoteStorage random engine nest key)
      | Rejected e \<Rightarrow> Rejected e
      | Pending \<Rightarrow> Pending)"

section \<open>Connections\<close>

text \<open>
  \<^verbatim>\<open>JSON.stringify\<close> on what the "connections" handler compares: \<^verbatim>\<open>undefined\<close>
  (no entry in the table), for which it returns \<^verbatim>\<open>undefined\<close>, or an array of strings.
  A string is written between double quotes; the double quote and the backslash are
  escaped with a backslash, the control characters as \<^verbatim>\<open>\b \t \n \f \r\<close> or as
  \<^verbatim>\<open>\u00XX\<close> in lower-case hexadecimal.  The elements of an array are separated by
  commas, between brackets.  A \<open>char\<close> stands for a code unit below 256.
\<close>

definition hex_digit :: "nat \<Rightarrow> char" where
  "hex_digit n = ''0123456789abcdef'' ! n"

definition escape_char :: "char \<Rightarrow> string" where
  "escape_char c =
     (if c = CHR 0x08 then [CHR 0x5C, CHR ''b'']
      else if c = CHR 0x09 then [CHR 0x5C, CHR ''t'']
      else if c = CHR 0x0A then [CHR 0x5C, CHR ''n'']
      else if c = CHR 0x0C then [CHR 0x5C, CHR ''f'']
      else if c = CHR 0x0D then [CHR 0x5C, CHR ''r'']
      else if c = CHR 0x22 then [CHR 0x5C, CHR 0x22]
      else if c = CHR 0x5C then [CHR 0x5C, CHR 0x5C]
      else if (of_char c :: nat) < 32
        then [CHR 0x5C, CHR ''u'', CHR ''0'', CHR ''0'',
              hex_digit (of_char c div 16), hex_digit (of_char c mod 16)]
      else [c])"

definition quote :: "string \<Rightarrow> string" where
  "quote s = CHR 0x22 # concat (map escape_char s) @ [CHR 0x22]"

fun join_comma :: "string list \<Rightarrow> string" where
  "join_comma [] = []"
| "join_comma [x] = x"
| "join_comma (x # y # ys) = x @ '','' @ join_comma (y # ys)"

definition JSON_stringify :: "name list option \<Rightarrow> string option" where
  "JSON_stringify v =
     (case v of None \<Rightarrow> None | Some xs \<Rightarrow> Some (''['' @ join_comma (map quote xs) @ '']''))"

text \<open>
  \<open>broadcastConnections\<close>: to every neighbour but \<open>exceptFor\<close>, a "connections"
  request with \<^verbatim>\<open>{name, neighbors: nest.state.connections.get(name)}\<close>.
\<close>

definition broadcastConnections :: "nest \<Rightarrow> name \<Rightarrow> name option \<Rightarrow> outgoing list" where
  "broadcastConnections nest nm exceptFor =
     broadcast_loop (neighbors nest) exceptFor ''connections''
       (Connections nm (map_of (connections nest) nm))"

text \<open>
  The handler registered for "connections", on the fields \<open>name\<close> and \<open>neighbors\<close>
  of its content:
  \<^verbatim>\<open>if (JSON.stringify(connections.get(name)) == JSON.stringify(neighbors)) return;
  connections.set(name, neighbors); broadcastConnections(nest, name, source);\<close>
  \<^verbatim>\<open>Map.set\<close> replaces the value of a key that is there and adds a new key at the end.
\<close>

definition connections_handler :: "nest \<Rightarrow> name \<Rightarrow> name list \<Rightarrow> name \<Rightarrow> nest \<times> outgoing list" where
  "connections_handler nest nm nbs source =
     (if JSON_stringify (map_of (connections nest) nm) = JSON_stringify (Some nbs) then (nest, [])
      else
        (let nest' = nest\<lparr>connections := AList.update nm nbs (connections nest)\<rparr>
         in (nest', broadcastConnections nest' nm (Some source))))"

section \<open>Walks in the table\<close>

text \<open>
  \<open>walk conns n x y\<close>: \<open>n\<close> steps, each from a nest to one of the neighbours the
  table lists for it, lead from \<open>x\<close> to \<open>y\<close>.  \<open>hops\<close> is the least number of
  steps from the source.
\<close>

fun walk :: "(name \<times> name list) list \<Rightarrow> nat \<Rightarrow> name \<Rightarrow> name \<Rightarrow> bool" where
  "walk conns 0 x y = (x = y)"
| "walk conns (Suc n) x y = (\<exists>z \<in> set (get_or_empty conns x). walk conns n z y)"

definition reach :: "(name \<times> name list) list \<Rightarrow> name \<Rightarrow> name \<Rightarrow> bool" where
  "reach conns from x = (\<exists>n. walk conns n from x)"

definition hops :: "(name \<times> name list) list \<Rightarrow> name \<Rightarrow> name \<Rightarrow> nat" where
  "hops conns from x = (LEAST n. walk conns n from x)"

text \<open>
  The invariant of \<open>findRoute\<close> while entry \<open>i\<close> of \<open>work\<close> is being processed and
  the neighbours \<open>pre\<close> of it have been looked at: the entries are nests that can be
  reached, each once, in the order of their distance from the source; all nests nearer
  than entry \<open>i\<close> come before it; the neighbours of the entries before \<open>i\<close>, and
  those in \<open>pre\<close>, are entries and are not the target; and \<open>via\<close> of an entry is a
  neighbour of the source from which a walk one shorter than the distance leads to the
  entry.
\<close>

definition bfs_inv ::
  "(name \<times> name list) list \<Rightarrow> name \<Rightarrow> name \<Rightarrow> nat \<Rightarrow> name list \<Rightarrow> work_item list \<Rightarrow> bool" where
  "bfs_inv conns from to i pre work \<longleftrightarrow>
     i < length work \<and> hd work = \<lparr>at_nest = from, via = None\<rparr> \<and>
     distinct (map at_nest work) \<and>
     (\<forall>x \<in> at_nest ` set work. reach conns from x) \<and>
     sorted (map (\<lambda>w. hops conns from (at_nest w)) work) \<and>
     (\<forall>x \<in> at_nest ` set work. hops conns from x \<le> hops conns from (at_nest (work ! i)) + 1) \<and>
     (\<forall>p. reach conns from p \<and> hops conns from p < hops conns from (at_nest (work ! i))
        \<longrightarrow> p \<in> at_nest ` set (take i work)) \<and>
     (\<forall>y \<in> at_nest ` set (take i work). \<forall>x \<in> set (get_or_empty conns y).
        x \<noteq> to \<and> x \<in> at_nest ` set work) \<and>
     (\<forall>x \<in> set pre. x \<noteq> to \<and> x \<in> at_nest ` set work) \<and>
     (\<forall>w \<in> set (tl work). \<exists>h. via w = Some h \<and> h \<noteq> [] \<and> h \<in> set (get_or_empty conns from) \<and>
        0 < hops conns from (at_nest w) \<and>
        walk conns (hops conns from (at_nest w) - 1) h (at_nest w))"

text \<open>What \<open>findRoute\<close> is to return.\<close>

definition first_hop_ok :: "(name \<times> name list) list \<Rightarrow> name \<Rightarrow> name \<Rightarrow> name option \<Rightarrow> bool" where
  "first_hop_ok conns from to r \<longleftrightarrow>
     (r = None \<longleftrightarrow> (to \<in> set (get_or_empty conns from) \<or> (\<forall>n. \<not> walk conns (Suc n) from to))) \<and>
     (\<forall>h. r = Some h \<longrightarrow> h \<in> set (get_or_empty conns from) \<and>
        (\<exists>n. walk conns n h to \<and> (\<forall>m. walk conns (Suc m) from to \<longrightarrow> n \<le> m)))"

section \<open>Example network\<close>

text \<open>Four nests in a line, A - B - C - D, with the full table at A.\<close>

definition line_table :: "(name \<times> name list) list" where
  "line_table = [(''A'', [''B'']), (''B'', [''A'', ''C'']), (''C'', [''B'', ''D'']), (''D'', [''C''])]"

definition nestA :: nest where
  "nestA = \<lparr>name = ''A'', neighbors = [''B''], gossip = [''m''],
             connections = line_table, local_storage = Map.empty\<rparr>"

definition nestB :: nest where
  "nestB = \<lparr>name = ''B'', neighbors = [''A'', ''C''], gossip = [],
             connections = line_table, local_storage = Map.empty\<rparr>"

text \<open>A nest whose only neighbour has the empty name, which leads on to C.\<close>

definition nestE :: nest where
  "nestE = \<lparr>name = ''A'', neighbors = [''''], gossip = [],
             connections = [(''A'', ['''']), ('''', [''A'', ''C''])], local_storage = Map.empty\<rparr>"

text \<open>
  Nest A of the line A - B - D - C after it has learnt the neighbours of B and of C but
  not those of D; B holds a value under \<open>x\<close> and answers the "storage" request.
\<close>

definition nestP :: nest where
  "nestP = \<lparr>name = ''A'', neighbors = [''B''], gossip = [],
             connections = [(''A'', [''B'']), (''B'', [''A'', ''D'']), (''C'', [''D''])],
             local_storage = Map.empty\<rparr>"

definition engineP :: "outgoing \<Rightarrow> content promise" where
  "engineP rq =
     (if rq = Request ''B'' ''storage'' (Str ''x'') then Fulfilled (Str ''42'')
      else Rejected (Timeout ''Timed out''))"

text \<open>A table in which the only neighbour of A has the empty name.\<close>

definition empty_name_table :: "(name \<times> name list) list" where
  "empty_name_table = [(''A'', ['''']), ('''', [''B'']), (''B'', [''C''])]"

section \<open>Theorems\<close>

lemma broadcast_loop_eq:
  "broadcast_loop ns exceptFor ty c =
     map (\<lambda>n. Request n ty c) (filter (\<lambda>n. Some n \<noteq> exceptFor) ns)"
  by (induction ns) auto

lemma add_TypeError: "add g m = Inl (TypeError ''this.members.add is not a function'')"
  by (simp add: add_def Array_method_def)

text \<open>
  C10.  For every group and every member \<open>m\<close>, \<open>add\<close> raises a \<^verbatim>\<open>TypeError\<close>: the
  array in \<open>members\<close> has no method \<open>add\<close>.  So no non-empty run of \<open>add\<close> calls
  on a fresh group succeeds.
\<close>

theorem Group_add_raises:
  "add g m = Inl (TypeError ''this.members.add is not a function'') \<and>
   (ms \<noteq> [] \<longrightarrow> add_all Group_constructor ms = Inl (TypeError ''this.members.add is not a function''))"
  by (cases ms) (simp_all add: add_TypeError)

theorem Group_add_raises_witness:
  "add (Group_constructor :: nat Group) 7 = Inl (TypeError ''this.members.add is not a function'') \<and>
   add_all (Group_constructor :: nat Group) [7, 8] = Inl (TypeError ''this.members.add is not a function'')"
  using Group_add_raises [of "Group_constructor :: nat Group" 7 "[7, 8]"] by simp

subsection \<open>Gossip\<close>

lemma gossip_handler_neighbors:
  "neighbors (fst (gossip_handler nest message source)) = neighbors nest"
  by (simp add: gossip_handler_def sendGossip_def)

lemma gossip_handler_seen:
  "m \<in> set (gossip nest) \<Longrightarrow> m \<in> set (gossip (fst (gossip_handler nest message source)))"
  by (simp add: gossip_handler_def sendGossip_def)

lemma gossip_handler_quiet:
  "m \<in> set (gossip nest) \<Longrightarrow>
   Request n ''gossip'' (Str m) \<notin> set (snd (gossip_handler nest message source))"
  by (auto simp: gossip_handler_def sendGossip_def broadcast_loop_eq)

lemma snd_gossip_run_Cons:
  "snd (gossip_run nest ((message, source) # evs)) =
     snd (gossip_handler nest message source) @
     snd (gossip_run (fst (gossip_handler nest message source)) evs)"
  by (simp split: prod.splits)

lemma gossip_run_quiet:
  "m \<in> set (gossip nest) \<Longrightarrow> Request n ''gossip'' (Str m) \<notin> set (snd (gossip_run nest evs))"
proof (induction evs arbitrary: nest)
  case Nil
  then show ?case by simp
next
  case (Cons ev evs)
  obtain message source where ev: "ev = (message, source)" by (cases ev)
  obtain nest' out where h: "gossip_handler nest message source = (nest', out)"
    by (cases "gossip_handler nest message source")
  have seen: "m \<in> set (gossip nest')"
    using gossip_handler_seen [OF Cons.prems, of message source] h by simp
  have "Request n ''gossip'' (Str m) \<notin> set out"
    using gossip_handler_quiet [OF Cons.prems, of n message source] h by simp
  moreover have "Request n ''gossip'' (Str m) \<notin> set (snd (gossip_run nest' evs))"
    by (rule Cons.IH [OF seen])
  ultimately show ?case
    unfolding ev snd_gossip_run_Cons by (simp add: h)
qed

lemma count_list_0: "x \<notin> set xs \<Longrightarrow> count_list xs x = 0"
  by (induction xs) auto

lemma count_list_broadcast:
  "count_list (broadcast_loop ns exceptFor ty c) (Request n ty c) \<le> count_list ns n"
  by (induction ns) auto

lemma gossip_handler_count:
  "count_list (snd (gossip_handler nest message source)) (Request n ''gossip'' (Str m))
     \<le> count_list (neighbors nest) n"
proof (cases "m = message")
  case True
  then show ?thesis
    by (simp add: gossip_handler_def sendGossip_def count_list_broadcast)
next
  case False
  then have "Request n ''gossip'' (Str m) \<notin> set (snd (gossip_handler nest message source))"
    by (auto simp: gossip_handler_def sendGossip_def broadcast_loop_eq)
  then show ?thesis by (simp add: count_list_0)
qed

lemma gossip_handler_records:
  "snd (gossip_handler nest message source) \<noteq> [] \<Longrightarrow>
   message \<in> set (gossip (fst (gossip_handler nest message source)))"
  by (simp add: gossip_handler_def sendGossip_def split: if_splits)

lemma gossip_run_count:
  "count_list (snd (gossip_run nest evs)) (Request n ''gossip'' (Str m)) \<le> count_list (neighbors nest) n"
proof (induction evs arbitrary: nest)
  case Nil
  then show ?case by simp
next
  case (Cons ev evs)
  obtain message source where ev: "ev = (message, source)" by (cases ev)
  obtain nest' out where h: "gossip_handler nest message source = (nest', out)"
    by (cases "gossip_handler nest message source")
  let ?r = "Request n ''gossip'' (Str m)"
  have nb: "neighbors nest' = neighbors nest"
    using gossip_handler_neighbors [of nest message source] h by simp
  have run: "snd (gossip_run nest (ev # evs)) = out @ snd (gossip_run nest' evs)"
    unfolding ev snd_gossip_run_Cons by (simp add: h)
  show ?case
  proof (cases "?r \<in> set out")
    case True
    then have "out \<noteq> []" by auto
    moreover from True have "m = message"
      using h by (auto simp: gossip_handler_def sendGossip_def broadcast_loop_eq split: if_splits)
    ultimately have "m \<in> set (gossip nest')"
      using gossip_handler_records [of nest message source] h by simp
    then have "count_list (snd (gossip_run nest' evs)) ?r = 0"
      by (simp add: count_list_0 gossip_run_quiet)
    moreover have "count_list out ?r \<le> count_list (neighbors nest) n"
      using gossip_handler_count [of nest message source n m] h by simp
    ultimately show ?thesis by (simp add: run)
  next
    case False
    then have "count_list out ?r = 0" by (simp add: count_list_0)
    moreover have "count_list (snd (gossip_run nest' evs)) ?r \<le> count_list (neighbors nest) n"
      using Cons.IH [of nest'] nb by simp
    ultimately show ?thesis by (simp add: run)
  qed
qed

text \<open>
  C4.  When nest N receives "gossip" with content M from S: if M is already in the
  seen list of N the handler changes nothing and sends nothing; otherwise N records M
  and sends a "gossip" request with content M to every neighbour of N except S, in the
  order of the neighbour list.  Over any sequence of incoming gossip requests, N sends
  the gossip M to a neighbour at most as often as the neighbour occurs in the
  neighbour list: each message is forwarded at most once.
\<close>

theorem gossip_handler_forwards_once:
  "(message \<in> set (gossip nest) \<longrightarrow> gossip_handler nest message source = (nest, [])) \<and>
   (message \<notin> set (gossip nest) \<longrightarrow>
      gossip_handler nest message source =
        (nest\<lparr>gossip := gossip nest @ [message]\<rparr>,
         map (\<lambda>n. Request n ''gossip'' (Str message))
           (filter (\<lambda>n. n \<noteq> source) (neighbors nest)))) \<and>
   count_list (snd (gossip_run nest evs)) (Request n ''gossip'' (Str message))
     \<le> count_list (neighbors nest) n"
  by (simp add: gossip_handler_def sendGossip_def broadcast_loop_eq gossip_run_count)

theorem gossip_handler_forwards_once_witness:
  "gossip_handler nestA ''m'' ''B'' = (nestA, []) \<and>
   gossip_handler nestB ''m'' ''A'' =
     (nestB\<lparr>gossip := [''m'']\<rparr>, [Request ''C'' ''gossip'' (Str ''m'')]) \<and>
   count_list (snd (gossip_run nestB [(''m'', ''A''), (''m'', ''C''), (''m'', ''A'')]))
     (Request ''C'' ''gossip'' (Str ''m'')) \<le> 1"
  using gossip_handler_forwards_once [of "''m''" nestA "''B''" "[]" "''C''"]
    gossip_handler_forwards_once [of "''m''" nestB "''A''" "[(''m'', ''A''), (''m'', ''C''), (''m'', ''A'')]" "''C''"]
  by (simp add: nestA_def nestB_def gossip_handler_def sendGossip_def)




subsection \<open>Request types\<close>

text \<open>
  C7 (amended).  The function registered for a type by \<open>requestType\<close> turns each form
  of handler result into one call of the callback.  A plain value \<open>v\<close> gives
  \<^verbatim>\<open>callback(null, v)\<close>, and so does a promise that resolves with \<open>v\<close>: a success with
  that value.  A promise that rejects with \<open>r\<close>, and a handler that raises \<open>r\<close>, give
  \<^verbatim>\<open>callback(r)\<close>; provided \<open>r\<close> is truthy (as an \<^verbatim>\<open>Error\<close> object is), that is a
  failure with \<open>r\<close>.
\<close>

theorem requestType_normalises:
  "requestType nm handler registry nm = Some (requestType_hook handler) \<and>
   (handler nest c source = Inr (Plain v) \<or> handler nest c source = Inr (Promise (Resolved v)) \<longrightarrow>
      requestType_hook handler nest c source = Some (Callback Null_value (Some v)) \<and>
      error_first (Callback Null_value (Some v)) = Success (Some v)) \<and>
   (truthy r \<and>
    (handler nest c source = Inr (Promise (Rejected_with r)) \<or> handler nest c source = Inl r) \<longrightarrow>
      requestType_hook handler nest c source = Some (Callback r None) \<and>
      error_first (Callback r None :: 'v callback_call) = Failure r)"
  by (auto simp: requestType_def defineRequestType_def requestType_hook_def Promise_resolve_def
      error_first_def truthy_def)

theorem requestType_normalises_witness:
  "requestType ''ping'' ping_handler Map.empty ''ping'' = Some (requestType_hook ping_handler) \<and>
   requestType_hook ping_handler nestA Null ''B'' = Some (Callback Null_value (Some (Str ''pong''))) \<and>
   error_first (Callback Null_value (Some (Str ''pong''))) = Success (Some (Str ''pong'')) \<and>
   requestType_hook (\<lambda>n c s. Inr (Promise (Resolved c))) nestA (Str ''x'') ''B''
     = Some (Callback Null_value (Some (Str ''x''))) \<and>
   truthy (Raised (Timeout ''Timed out'')) \<and>
   requestType_hook (\<lambda>n c s. Inr (Promise (Rejected_with (Raised (Timeout ''Timed out''))) :: content js_value))
       nestA Null ''B''
     = Some (Callback (Raised (Timeout ''Timed out'')) None) \<and>
   error_first (Callback (Raised (Timeout ''Timed out'')) None :: content callback_call)
     = Failure (Raised (Timeout ''Timed out'')) \<and>
   requestType_hook (\<lambda>n c s. Inl (Raised (Error ''No route to Z'')) :: reason + content js_value)
       nestA Null ''B''
     = Some (Callback (Raised (Error ''No route to Z'')) None)"
proof -
  have t: "truthy (Raised (Timeout ''Timed out''))" "truthy (Raised (Error ''No route to Z''))"
    by (simp_all add: truthy_def)
  note ping = requestType_normalises [of "''ping''" ping_handler Map.empty nestA Null "''B''"
      "Str ''pong''" "Raised (Timeout ''Timed out'')"]
  note res = requestType_normalises [of "''t''" "\<lambda>n c s. Inr (Promise (Resolved c))" Map.empty
      nestA "Str ''x''" "''B''" "Str ''x''" "Raised (Timeout ''Timed out'')"]
  note rej = requestType_normalises [of "''t''"
      "\<lambda>n c s. Inr (Promise (Rejected_with (Raised (Timeout ''Timed out''))) :: content js_value)"
      Map.empty nestA Null "''B''" Null "Raised (Timeout ''Timed out'')"]
  note thr = requestType_normalises [of "''t''"
      "\<lambda>n c s. Inl (Raised (Error ''No route to Z'')) :: reason + content js_value"
      Map.empty nestA Null "''B''" Null "Raised (Error ''No route to Z'')"]
  have p: "ping_handler nestA Null ''B'' = Inr (Plain (Str ''pong''))"
    by (simp add: ping_handler_def)
  from ping p have "requestType ''ping'' ping_handler Map.empty ''ping'' = Some (requestType_hook ping_handler)"
    "requestType_hook ping_handler nestA Null ''B'' = Some (Callback Null_value (Some (Str ''pong'')))"
    "error_first (Callback Null_value (Some (Str ''pong''))) = Success (Some (Str ''pong''))"
    by blast+
  moreover from res have "requestType_hook (\<lambda>n c s. Inr (Promise (Resolved c))) nestA (Str ''x'') ''B''
     = Some (Callback Null_value (Some (Str ''x'')))" by blast
  moreover from rej t(1)
  have "requestType_hook (\<lambda>n c s. Inr (Promise (Rejected_with (Raised (Timeout ''Timed out''))) :: content js_value))
       nestA Null ''B'' = Some (Callback (Raised (Timeout ''Timed out'')) None)"
    "error_first (Callback (Raised (Timeout ''Timed out'')) None :: content callback_call)
     = Failure (Raised (Timeout ''Timed out''))"
    by blast+
  moreover from thr t(2)
  have "requestType_hook (\<lambda>n c s. Inl (Raised (Error ''No route to Z'')) :: reason + content js_value)
       nestA Null ''B'' = Some (Callback (Raised (Error ''No route to Z'')) None)"
    by blast
  ultimately show ?thesis using t(1) by blast
qed

text \<open>
  The claim C7 as stated fails for a handler whose promise is rejected with a falsy
  value, as that of \<^verbatim>\<open>() => Promise.reject()\<close> is, and for one that raises such a
  value: the callback is called with \<^verbatim>\<open>undefined\<close> as its first argument, which is
  read as a success.
\<close>

theorem requestType_falsy_reason_counterexample:
  "requestType_hook (\<lambda>n c s. Inr (Promise (Rejected_with Undefined)) :: reason + content js_value)
       nestA Null ''B''
     = Some (Callback Undefined None) \<and>
   requestType_hook (\<lambda>n c s. Inl Undefined :: reason + content js_value) nestA Null ''B''
     = Some (Callback Undefined None) \<and>
   error_first (Callback Undefined None :: content callback_call) = Success None"
  by (simp add: requestType_hook_def Promise_resolve_def error_first_def truthy_def)

subsection \<open>routeRequest\<close>

lemmas findRoute_eval =
  findRoute_def findRoute_run_def findRoute_loop.simps get_or_empty_def js_or_def falsy_def

text \<open>
  Where \<open>routeRequest\<close> makes a request: to the target itself when it is in the
  neighbour list of the nest, and otherwise, when \<open>findRoute\<close> gives a hop with a
  name that is not empty, a "route" request with \<^verbatim>\<open>{target, type, content}\<close> to that
  hop.  The handler for "route" calls \<open>routeRequest\<close> with the fields of its content.
\<close>

lemma routeRequest_sends:
  "(target \<in> set (neighbors nest) \<longrightarrow>
      routeRequest nest target ty c = Inr (Request target ty c)) \<and>
   (target \<notin> set (neighbors nest) \<and>
    findRoute (name nest) target (connections nest) = Some hop \<and> hop \<noteq> [] \<longrightarrow>
      routeRequest nest target ty c = Inr (Request hop ''route'' (RouteEnv target ty c))) \<and>
   route_handler nest target ty c = routeRequest nest target ty c"
  by (auto simp: routeRequest_def route_handler_def)

lemma routeRequest_line_examples:
  "routeRequest nestA ''B'' ''ping'' Null = Inr (Request ''B'' ''ping'' Null) \<and>
   routeRequest nestA ''D'' ''ping'' Null
     = Inr (Request ''B'' ''route'' (RouteEnv ''D'' ''ping'' Null)) \<and>
   route_handler nestB ''D'' ''ping'' Null
     = Inr (Request ''C'' ''route'' (RouteEnv ''D'' ''ping'' Null))"
  by (simp add: route_handler_def routeRequest_def nestA_def nestB_def line_table_def
      findRoute_eval)

text \<open>
  C3 (the code at the failing inputs).  At nest E the target C is no neighbour and
  \<open>findRoute\<close> gives the next hop, the neighbour with the empty name; \<open>routeRequest\<close>
  does not send the "route" request to it but raises "No route to C".  At nest A no
  route leads to Z and \<open>findRoute\<close> gives \<^verbatim>\<open>null\<close>; \<open>routeRequest\<close> raises
  "No route to Z" (\<open>Inl\<close>): the call returns no promise that could fail.
\<close>

theorem routeRequest_raises:
  "''C'' \<notin> set (neighbors nestE) \<and>
   findRoute (name nestE) ''C'' (connections nestE) = Some '''' \<and>
   routeRequest nestE ''C'' ''ping'' Null = Inl (Error ''No route to C'') \<and>
   ''Z'' \<notin> set (neighbors nestA) \<and>
   findRoute (name nestA) ''Z'' (connections nestA) = None \<and>
   routeRequest nestA ''Z'' ''ping'' Null = Inl (Error ''No route to Z'')"
  by (simp add: nestE_def nestA_def line_table_def routeRequest_def findRoute_eval)

subsection \<open>The retry engine\<close>

lemma attempt_silent:
  "send n = None \<Longrightarrow>
   attempt send n t \<lparr>is_done = False, outcome = Pending, settled_at = None, sends = ss, in_flight = []\<rparr>
   = (if n < 3
      then attempt send (n + 1) (t + 250)
        \<lparr>is_done = False, outcome = Pending, settled_at = None, sends = ss @ [(t, n)], in_flight = []\<rparr>
      else \<lparr>is_done = False, outcome = Rejected (Timeout ''Timed out''), settled_at = Some (t + 250),
        sends = ss @ [(t, n)], in_flight = []\<rparr>)"
  by (subst attempt.simps) (simp add: deliver_def settle_def)

text \<open>
  C1.  When the transport never calls the callback, \<open>request\<close> calls
  \<^verbatim>\<open>nest.send\<close> exactly three times, at the start and 250 and 500 time units later,
  and 750 time units after the start its promise is rejected with
  \<^verbatim>\<open>Timeout("Timed out")\<close>.
\<close>

theorem request_timeout:
  "(\<forall>n. send n = None) \<Longrightarrow>
   request send t0 =
     \<lparr>is_done = False, outcome = Rejected (Timeout ''Timed out''), settled_at = Some (t0 + 750),
      sends = [(t0, 1), (t0 + 250, 2), (t0 + 500, 3)], in_flight = []\<rparr>"
  by (simp add: request_def attempt_silent)

theorem request_timeout_witness:
  "request (\<lambda>n. None :: content reply option) 10 =
     \<lparr>is_done = False, outcome = Rejected (Timeout ''Timed out''), settled_at = Some 760,
      sends = [(10, 1), (260, 2), (510, 3)], in_flight = []\<rparr>"
  using request_timeout [of "\<lambda>n. None :: content reply option" 10] by simp


lemma callback_sends [simp]: "sends (callback t f v st) = sends st"
  by (simp add: callback_def settle_def split: option.splits)

lemma callback_settled: "outcome (callback t f v st) \<noteq> Pending" "is_done (callback t f v st)"
  by (simp_all add: callback_def settle_def split: option.splits)

lemma run_callbacks_sends [simp]:
  "sends (foldl (\<lambda>s (d, f, v). callback d f v s) st cs) = sends st"
  by (induction cs arbitrary: st) (auto split: prod.splits)

lemma run_callbacks_settled:
  "settled_if_done st \<Longrightarrow> settled_if_done (foldl (\<lambda>s (d, f, v). callback d f v s) st cs)"
proof (induction cs arbitrary: st)
  case Nil
  then show ?case by simp
next
  case (Cons c cs)
  obtain d f v where c: "c = (d, f, v)" by (cases c)
  have "settled_if_done (callback d f v st)"
    using callback_settled [of d f v st] by (simp add: settled_if_done_def)
  from Cons.IH [OF this] show ?case by (simp add: c)
qed

lemma run_callbacks_outcome:
  "outcome st \<noteq> Pending \<Longrightarrow> outcome (foldl (\<lambda>s (d, f, v). callback d f v s) st cs) = outcome st"
  by (induction cs arbitrary: st) (auto simp: callback_def settle_def split: option.splits)

lemma deliver_sends [simp]: "sends (deliver t st) = sends st"
  by (simp add: deliver_def)

lemma deliver_settled: "settled_if_done st \<Longrightarrow> settled_if_done (deliver t st)"
  unfolding deliver_def by (rule run_callbacks_settled) (simp add: settled_if_done_def)

lemma attempt_bounded:
  "settled_if_done st \<Longrightarrow> n \<le> 3 \<Longrightarrow>
   outcome (attempt send n t st) \<noteq> Pending \<and>
   length (sends (attempt send n t st)) \<le> length (sends st) + (4 - n) \<and>
   length (sends st) < length (sends (attempt send n t st))"
proof (induction send n t st rule: attempt.induct)
  case (1 send n t st)
  let ?st1 = "st\<lparr>sends := sends st @ [(t, n)],
                   in_flight := in_flight st @
                     (case send n of None \<Rightarrow> []
                      | Some r \<Rightarrow> [(t + delay r, failed r, reply_value r)])\<rparr>"
  let ?st2 = "deliver (t + 250) ?st1"
  have s1: "settled_if_done ?st1" using "1.prems"(1) by (simp add: settled_if_done_def)
  then have s2: "settled_if_done ?st2" by (rule deliver_settled)
  have len: "length (sends ?st2) = Suc (length (sends st))" by simp
  show ?case
  proof (cases "is_done ?st2")
    case True
    then have "attempt send n t st = ?st2" by (subst attempt.simps) (simp add: Let_def)
    with True s2 len "1.prems"(2) show ?thesis by (simp add: settled_if_done_def)
  next
    case nd: False
    show ?thesis
    proof (cases "n < 3")
      case True
      with nd have u: "attempt send n t st = attempt send (n + 1) (t + 250) ?st2"
        by (subst attempt.simps) (simp add: Let_def)
      from True have "n + 1 \<le> 3" by simp
      from "1.IH" [OF refl refl nd True s2 this]
      have "outcome (attempt send (n + 1) (t + 250) ?st2) \<noteq> Pending"
        and "length (sends (attempt send (n + 1) (t + 250) ?st2)) \<le> length (sends ?st2) + (4 - (n + 1))"
        and "length (sends ?st2) < length (sends (attempt send (n + 1) (t + 250) ?st2))"
        by blast+
      then show ?thesis unfolding u len using True by (intro conjI) linarith+
    next
      case False
      with nd have "attempt send n t st = settle (Rejected (Timeout ''Timed out'')) (t + 250) ?st2"
        by (subst attempt.simps) (simp add: Let_def)
      then show ?thesis using len "1.prems"(2) by (simp add: settle_def)
    qed
  qed
qed

text \<open>
  For every transport: the promise of \<open>request\<close> is settled in the end, and
  \<^verbatim>\<open>nest.send\<close> is called at least once and at most three times.
\<close>

lemma request_bounded:
  "outcome (request send t0) \<noteq> Pending \<and>
   1 \<le> length (sends (request send t0)) \<and> length (sends (request send t0)) \<le> 3"
proof -
  let ?init = "\<lparr>is_done = False, outcome = Pending, settled_at = None, sends = [],
    in_flight = []\<rparr> :: 'a request_state"
  have "settled_if_done ?init" by (simp add: settled_if_done_def)
  from attempt_bounded [OF this, of 1 send t0]
  show ?thesis
    by (simp add: request_def Let_def run_callbacks_outcome Suc_le_eq)
qed

subsection \<open>Promise\_all\<close>











subsection \<open>Distributed lookup\<close>

lemma routeRequest_nestP_C:
  "routeRequest nestP ''C'' ''storage'' (Str ''x'') = Inl (Error ''No route to C'')"
  by (simp add: nestP_def routeRequest_def findRoute_eval)

lemma candidates_nestP: "filter (\<lambda>n. n \<noteq> name nestP) (network nestP) = [''B'', ''C'']"
  by (simp add: network_def nestP_def)

lemma storage_nestP: "storage nestP ''x'' = Fulfilled Null"
  by (simp add: storage_def nestP_def)

lemma next_source_C_first:
  "next_source (\<lambda>k. 1 / 2) engineP nestP ''x'' 0 [''B'', ''C''] = Inl (Error ''No route to C'')"
  by (subst next_source.simps) (simp add: routeRequest_nestP_C Let_def)

lemma routeRequest_nestP_B:
  "routeRequest nestP ''B'' ''storage'' (Str ''x'') = Inr (Request ''B'' ''storage'' (Str ''x''))"
  by (simp add: nestP_def routeRequest_def)

lemma next_source_B_first:
  "next_source (\<lambda>k. 0) engineP nestP ''x'' 0 [''B'', ''C''] = Inr (Fulfilled (Str ''42''))"
  by (subst next_source.simps) (simp add: routeRequest_nestP_B Let_def engineP_def)

lemma random_index:
  assumes "0 \<le> r" "r < 1" "0 < n"
  shows "0 \<le> \<lfloor>r * real n\<rfloor> \<and> \<lfloor>r * real n\<rfloor> < int n"
proof
  show "0 \<le> \<lfloor>r * real n\<rfloor>" using assms by simp
  have "r * real n < real n" using assms by simp
  then show "\<lfloor>r * real n\<rfloor> < int n" by (simp add: floor_less_iff)
qed

text \<open>
  When \<^verbatim>\<open>Math.random()\<close> stays in its range, a request can be made to every
  candidate and every answer is \<^verbatim>\<open>null\<close> or a rejection, the candidates are used up
  and the promise is rejected with "Not found".
\<close>

lemma next_source_exhausted:
  "(\<forall>k. 0 \<le> random k \<and> random k < 1) \<Longrightarrow>
   (\<forall>s \<in> set sources. \<exists>rq. routeRequest nest s ''storage'' (Str key) = Inr rq \<and>
      (engine rq = Fulfilled Null \<or> (\<exists>e. engine rq = Rejected e))) \<Longrightarrow>
   next_source random engine nest key k sources = Inr (Rejected (Error ''Not found''))"
proof (induction random engine nest key k sources rule: next_source.induct)
  case (1 random engine nest key k sources)
  show ?case
  proof (cases "sources = []")
    case True
    then show ?thesis by (subst next_source.simps) simp
  next
    case False
    let ?idx = "\<lfloor>random k * real (length sources)\<rfloor>"
    let ?source = "sources ! nat ?idx"
    let ?sources = "filter (\<lambda>n. n \<noteq> ?source) sources"
    have idx: "0 \<le> ?idx \<and> ?idx < int (length sources)"
      using random_index [of "random k" "length sources"] "1.prems"(1) False by simp
    then have mem: "?source \<in> set sources" by (simp add: nat_less_iff)
    with "1.prems"(2) obtain rq where rq: "routeRequest nest ?source ''storage'' (Str key) = Inr rq"
      "engine rq = Fulfilled Null \<or> (\<exists>e. engine rq = Rejected e)" by blast
    have rest: "\<forall>s \<in> set ?sources. \<exists>rq. routeRequest nest s ''storage'' (Str key) = Inr rq \<and>
      (engine rq = Fulfilled Null \<or> (\<exists>e. engine rq = Rejected e))"
      using "1.prems"(2) by simp
    have len: "length sources \<noteq> 0" using False by simp
    from rq(2) show ?thesis
    proof
      assume f: "engine rq = Fulfilled Null"
      have "next_source random engine nest key (k + 1) ?sources = Inr (Rejected (Error ''Not found''))"
        using "1.IH"(1) [OF len refl idx refl refl rq(1) f _ "1.prems"(1) rest] by simp
      then show ?thesis
        using False idx rq(1) f by (subst next_source.simps) (simp add: Let_def adopt_def)
    next
      assume "\<exists>e. engine rq = Rejected e"
      then obtain e where e: "engine rq = Rejected e" ..
      have "next_source random engine nest key (k + 1) ?sources = Inr (Rejected (Error ''Not found''))"
        using "1.IH"(2) [OF len refl idx refl refl rq(1) e "1.prems"(1) rest] .
      then show ?thesis
        using False idx rq(1) e by (subst next_source.simps) (simp add: Let_def adopt_def)
    qed
  qed
qed

text \<open>
  C6 (the code at the failing input).  Nest A has nothing under \<open>x\<close> itself; the
  candidates are B and C, and the table of A has no route to C.  When the random choice
  takes C first, \<open>routeRequest\<close> raises, the exception is not caught by the rejection
  handler \<open>next\<close>, and the lookup is rejected with "No route to C": B is never asked
  and the error is not "Not found".  When the choice takes B first the lookup yields
  the value of B.
\<close>

theorem findInStorage_route_error_escapes:
  "storage nestP ''x'' = Fulfilled Null \<and>
   filter (\<lambda>n. n \<noteq> name nestP) (network nestP) = [''B'', ''C''] \<and>
   findInStorage (\<lambda>k. 1 / 2) engineP nestP ''x'' = Rejected (Error ''No route to C'') \<and>
   findInStorage (\<lambda>k. 0) engineP nestP ''x'' = Fulfilled (Str ''42'')"
  by (simp add: findInStorage_def findInRemoteStorage_def storage_nestP candidates_nestP
      next_source_C_first next_source_B_first adopt_def)

subsection \<open>Connections\<close>

text \<open>\<open>JSON_stringify\<close> is injective: the escapes of two characters never begin alike.\<close>

lemma hex_digit_inj: "a < 16 \<Longrightarrow> b < 16 \<Longrightarrow> hex_digit a = hex_digit b \<Longrightarrow> a = b"
proof -
  have "\<forall>a \<in> set [0..<16]. \<forall>b \<in> set [0..<16]. hex_digit a = hex_digit b \<longrightarrow> a = b"
    by code_simp
  then show "a < 16 \<Longrightarrow> b < 16 \<Longrightarrow> hex_digit a = hex_digit b \<Longrightarrow> a = b"
    by simp
qed

lemma char_from_digits:
  "(of_char c :: nat) div 16 = of_char c' div 16 \<Longrightarrow> (of_char c :: nat) mod 16 = of_char c' mod 16 \<Longrightarrow> c = c'"
proof -
  assume "(of_char c :: nat) div 16 = of_char c' div 16" "(of_char c :: nat) mod 16 = of_char c' mod 16"
  then have "(of_char c :: nat) = of_char c'"
    by (metis div_mult_mod_eq)
  then show ?thesis by simp
qed

lemma control_char_eq:
  assumes "(of_char c :: nat) < 32" "(of_char c' :: nat) < 32"
    and "hex_digit (of_char c div 16) = hex_digit (of_char c' div 16)"
    and "hex_digit (of_char c mod 16) = hex_digit (of_char c' mod 16)"
  shows "c = c'"
proof -
  have "(of_char c :: nat) div 16 < 16" "(of_char c' :: nat) div 16 < 16"
    using assms(1,2) by simp_all
  with assms(3) have "(of_char c :: nat) div 16 = of_char c' div 16"
    by (intro hex_digit_inj)
  moreover have "(of_char c :: nat) mod 16 = of_char c' mod 16"
    using assms(4) by (intro hex_digit_inj) simp_all
  ultimately show ?thesis by (rule char_from_digits)
qed

lemma escape_char_prefix_free:
  "escape_char c @ r = escape_char c' @ r' \<Longrightarrow> c = c' \<and> r = r'"
  by (simp add: escape_char_def split: if_splits) (auto intro: control_char_eq)

lemma escape_char_not_quote: "escape_char c @ r \<noteq> CHR 0x22 # r'"
  by (simp add: escape_char_def)

lemma escaped_body_inj:
  "concat (map escape_char s) @ CHR 0x22 # r = concat (map escape_char s') @ CHR 0x22 # r'
   \<Longrightarrow> s = s' \<and> r = r'"
proof (induction s arbitrary: s')
  case Nil
  show ?case
  proof (cases s')
    case Nil
    with \<open>concat (map escape_char []) @ CHR 0x22 # r = _\<close> show ?thesis by simp
  next
    case (Cons c' t')
    with \<open>concat (map escape_char []) @ CHR 0x22 # r = _\<close>
    have "escape_char c' @ (concat (map escape_char t') @ CHR 0x22 # r') = CHR 0x22 # r"
      by simp
    then show ?thesis using escape_char_not_quote by blast
  qed
next
  case (Cons c s)
  show ?case
  proof (cases s')
    case Nil
    with Cons.prems show ?thesis
      using escape_char_not_quote [of c "concat (map escape_char s) @ CHR 0x22 # r" r'] by simp
  next
    case (Cons c' t')
    with Cons.prems have "escape_char c @ (concat (map escape_char s) @ CHR 0x22 # r)
        = escape_char c' @ (concat (map escape_char t') @ CHR 0x22 # r')"
      by simp
    then have "c = c'" "concat (map escape_char s) @ CHR 0x22 # r = concat (map escape_char t') @ CHR 0x22 # r'"
      using escape_char_prefix_free by blast+
    with Cons.IH [of t'] Cons show ?thesis by simp
  qed
qed

lemma quote_inj: "quote s @ r = quote s' @ r' \<Longrightarrow> s = s' \<and> r = r'"
  using escaped_body_inj [of s r s' r'] by (simp add: quote_def)

lemma quote_first: "quote s @ r \<noteq> CHR '']'' # r'" "quote s @ r \<noteq> CHR '','' # r'"
  by (simp_all add: quote_def)

lemma join_comma_Cons:
  "join_comma (x # xs) = x @ (if xs = [] then [] else '','' @ join_comma xs)"
  by (cases xs) simp_all

lemma join_quote_inj:
  "join_comma (map quote xs) @ '']'' = join_comma (map quote ys) @ '']'' \<Longrightarrow> xs = ys"
proof (induction xs arbitrary: ys)
  case Nil
  then show ?case
    using quote_first(1) [of _ _ "[]"] by (cases ys) (auto simp: join_comma_Cons split: if_splits)
next
  case (Cons x xs)
  show ?case
  proof (cases ys)
    case Nil
    with Cons.prems show ?thesis
      using quote_first(1) [of x _ "[]"] by (auto simp: join_comma_Cons split: if_splits)
  next
    case ys: (Cons y ys')
    let ?tl = "\<lambda>zs. (if zs = [] then [] else '','' @ join_comma (map quote zs)) @ '']''"
    from Cons.prems ys have "quote x @ ?tl xs = quote y @ ?tl ys'"
      by (simp add: join_comma_Cons)
    then have xy: "x = y" and tl: "?tl xs = ?tl ys'"
      using quote_inj by blast+
    have "xs = ys'"
    proof (cases "xs = []")
      case True
      with tl show ?thesis by (auto split: if_splits)
    next
      case False
      with tl have "ys' \<noteq> []" by (auto split: if_splits)
      with tl False have "join_comma (map quote xs) @ '']'' = join_comma (map quote ys') @ '']''"
        by simp
      then show ?thesis by (rule Cons.IH)
    qed
    with xy ys show ?thesis by simp
  qed
qed

lemma JSON_stringify_inj: "JSON_stringify v = JSON_stringify w \<longleftrightarrow> v = w"
proof
  assume eq: "JSON_stringify v = JSON_stringify w"
  show "v = w"
  proof (cases v)
    case None
    with eq show ?thesis by (cases w) (simp_all add: JSON_stringify_def)
  next
    case v: (Some xs)
    with eq obtain ys where w: "w = Some ys" by (cases w) (simp_all add: JSON_stringify_def)
    from eq v w have "join_comma (map quote xs) @ '']'' = join_comma (map quote ys) @ '']''"
      by (simp add: JSON_stringify_def)
    then have "xs = ys" by (rule join_quote_inj)
    with v w show ?thesis by simp
  qed
qed simp


lemma connections_handler_same:
  "map_of (connections nest) nm = Some nbs \<Longrightarrow> connections_handler nest nm nbs source = (nest, [])"
  by (simp add: connections_handler_def)

lemma connections_handler_new:
  "map_of (connections nest) nm \<noteq> Some nbs \<Longrightarrow>
   connections_handler nest nm nbs source =
     (nest\<lparr>connections := AList.update nm nbs (connections nest)\<rparr>,
      map (\<lambda>n. Request n ''connections'' (Connections nm (Some nbs)))
        (filter (\<lambda>n. n \<noteq> source) (neighbors nest)))"
  by (simp add: connections_handler_def JSON_stringify_inj broadcastConnections_def
      broadcast_loop_eq update_conv')

lemma connections_handler_entry:
  "map_of (connections (fst (connections_handler nest nm nbs source))) nm = Some nbs"
  by (simp add: connections_handler_def JSON_stringify_inj update_conv' Let_def)

text \<open>
  C5.  When nest N receives "connections" \<open>{name, neighbors}\<close> from S, the list is
  compared with the entry of N for \<open>name\<close> as a list, element by element and in
  order (the two \<^verbatim>\<open>JSON.stringify\<close> texts are equal exactly when the entry is there
  and is the same list).  If they are the same the handler changes nothing and sends
  nothing; otherwise the entry is replaced and N sends the new entry to every
  neighbour but S.  Delivering the same update again, from whatever source, changes
  nothing and sends nothing.
\<close>

theorem connections_handler_idempotent:
  "(JSON_stringify (map_of (connections nest) nm) = JSON_stringify (Some nbs)
      \<longleftrightarrow> map_of (connections nest) nm = Some nbs) \<and>
   (map_of (connections nest) nm = Some nbs \<longrightarrow>
      connections_handler nest nm nbs source = (nest, [])) \<and>
   (map_of (connections nest) nm \<noteq> Some nbs \<longrightarrow>
      connections_handler nest nm nbs source =
        (nest\<lparr>connections := AList.update nm nbs (connections nest)\<rparr>,
         map (\<lambda>n. Request n ''connections'' (Connections nm (Some nbs)))
           (filter (\<lambda>n. n \<noteq> source) (neighbors nest)))) \<and>
   connections_handler (fst (connections_handler nest nm nbs source)) nm nbs source'
     = (fst (connections_handler nest nm nbs source), [])"
  using connections_handler_same [OF connections_handler_entry, of nest nm nbs source source']
  by (simp add: JSON_stringify_inj connections_handler_same connections_handler_new)

theorem connections_handler_idempotent_witness:
  "connections_handler nestB ''C'' [''B'', ''D''] ''C'' = (nestB, []) \<and>
   connections_handler nestB ''C'' [''D'', ''B''] ''C'' =
     (nestB\<lparr>connections :=
        [(''A'', [''B'']), (''B'', [''A'', ''C'']), (''C'', [''D'', ''B'']), (''D'', [''C''])]\<rparr>,
      [Request ''A'' ''connections'' (Connections ''C'' (Some [''D'', ''B'']))]) \<and>
   connections_handler (fst (connections_handler nestB ''C'' [''D'', ''B''] ''C'')) ''C'' [''D'', ''B''] ''A''
     = (fst (connections_handler nestB ''C'' [''D'', ''B''] ''C''), [])"
proof -
  have e: "map_of (connections nestB) ''C'' = Some [''B'', ''D'']"
    "map_of (connections nestB) ''C'' \<noteq> Some [''D'', ''B'']"
    by (simp_all add: nestB_def line_table_def)
  have u: "AList.update ''C'' [''D'', ''B''] (connections nestB)
      = [(''A'', [''B'']), (''B'', [''A'', ''C'']), (''C'', [''D'', ''B'']), (''D'', [''C''])]"
    "filter (\<lambda>n. n \<noteq> ''C'') (neighbors nestB) = [''A'']"
    by (simp_all add: nestB_def line_table_def)
  note same = connections_handler_idempotent [of nestB "''C''" "[''B'', ''D'']" "''C''" "''A''"]
  note new = connections_handler_idempotent [of nestB "''C''" "[''D'', ''B'']" "''C''" "''A''"]
  have a: "connections_handler nestB ''C'' [''B'', ''D''] ''C'' = (nestB, [])"
    using same e by blast
  have b: "connections_handler nestB ''C'' [''D'', ''B''] ''C'' =
     (nestB\<lparr>connections :=
        [(''A'', [''B'']), (''B'', [''A'', ''C'']), (''C'', [''D'', ''B'']), (''D'', [''C''])]\<rparr>,
      [Request ''A'' ''connections'' (Connections ''C'' (Some [''D'', ''B'']))])"
    using new e u by simp
  have c: "connections_handler (fst (connections_handler nestB ''C'' [''D'', ''B''] ''C'')) ''C'' [''D'', ''B''] ''A''
     = (fst (connections_handler nestB ''C'' [''D'', ''B''] ''C''), [])"
    using new by blast
  from a b c show ?thesis by blast
qed

subsection \<open>findRoute\<close>

lemma walk_snoc:
  "walk conns n x y \<Longrightarrow> z \<in> set (get_or_empty conns y) \<Longrightarrow> walk conns (Suc n) x z"
proof (induction n arbitrary: x)
  case 0
  then show ?case by simp
next
  case (Suc n)
  from Suc.prems(1) obtain x' where x': "x' \<in> set (get_or_empty conns x)" "walk conns n x' y"
    by auto
  from Suc.IH [OF x'(2) Suc.prems(2)] have "walk conns (Suc n) x' z" .
  with x'(1) show ?case by (subst walk.simps) blast
qed

lemma walk_last:
  "walk conns (Suc n) x z \<Longrightarrow> \<exists>y. walk conns n x y \<and> z \<in> set (get_or_empty conns y)"
proof (induction n arbitrary: x)
  case 0
  then show ?case by auto
next
  case (Suc n)
  from Suc.prems obtain x' where x': "x' \<in> set (get_or_empty conns x)" "walk conns (Suc n) x' z"
    by auto
  from Suc.IH [OF x'(2)] obtain y where "walk conns n x' y" "z \<in> set (get_or_empty conns y)"
    by blast
  with x'(1) show ?case by auto
qed

lemma hops_le: "walk conns n from x \<Longrightarrow> hops conns from x \<le> n"
  unfolding hops_def by (rule Least_le)

lemma hops_walk: "reach conns from x \<Longrightarrow> walk conns (hops conns from x) from x"
  unfolding hops_def reach_def by (rule LeastI_ex)

lemma hops_from: "hops conns from from = 0"
  using hops_le [of conns 0 "from" "from"] by simp

lemma reach_from: "reach conns from from"
  unfolding reach_def by (rule exI [of _ 0]) simp

lemma hops_0: "reach conns from x \<Longrightarrow> hops conns from x = 0 \<Longrightarrow> x = from"
  using hops_walk [of conns "from" x] by simp

lemma reach_step:
  "reach conns from y \<Longrightarrow> x \<in> set (get_or_empty conns y) \<Longrightarrow> reach conns from x"
  unfolding reach_def using walk_snoc by blast

lemma hops_step:
  "reach conns from y \<Longrightarrow> x \<in> set (get_or_empty conns y) \<Longrightarrow>
   hops conns from x \<le> hops conns from y + 1"
  using walk_snoc [OF hops_walk, of conns "from" y x] hops_le [of conns "Suc (hops conns from y)" "from" x]
  by simp

lemma hops_pred:
  assumes "reach conns from x" "hops conns from x = Suc d"
  shows "\<exists>y. reach conns from y \<and> hops conns from y = d \<and> x \<in> set (get_or_empty conns y)"
proof -
  from assms have "walk conns (Suc d) from x" using hops_walk by fastforce
  then obtain y where y: "walk conns d from y" "x \<in> set (get_or_empty conns y)"
    using walk_last by blast
  then have r: "reach conns from y" by (auto simp: reach_def)
  have "hops conns from y \<le> d" using y(1) by (rule hops_le)
  moreover have "Suc d \<le> hops conns from y + 1"
    using hops_step [OF r y(2)] assms(2) by simp
  ultimately have "hops conns from y = d" by simp
  with r y(2) show ?thesis by blast
qed


lemma bfs_invD:
  assumes "bfs_inv conns from to i pre work"
  shows "i < length work" and "hd work = \<lparr>at_nest = from, via = None\<rparr>"
    and "distinct (map at_nest work)"
    and "\<And>x. x \<in> at_nest ` set work \<Longrightarrow> reach conns from x"
    and "sorted (map (\<lambda>w. hops conns from (at_nest w)) work)"
    and "\<And>x. x \<in> at_nest ` set work \<Longrightarrow> hops conns from x \<le> hops conns from (at_nest (work ! i)) + 1"
    and "\<And>p. reach conns from p \<Longrightarrow> hops conns from p < hops conns from (at_nest (work ! i))
        \<Longrightarrow> p \<in> at_nest ` set (take i work)"
    and "\<And>y x. y \<in> at_nest ` set (take i work) \<Longrightarrow> x \<in> set (get_or_empty conns y)
        \<Longrightarrow> x \<noteq> to \<and> x \<in> at_nest ` set work"
    and "\<And>x. x \<in> set pre \<Longrightarrow> x \<noteq> to \<and> x \<in> at_nest ` set work"
    and "\<And>w. w \<in> set (tl work) \<Longrightarrow> \<exists>h. via w = Some h \<and> h \<noteq> [] \<and> h \<in> set (get_or_empty conns from) \<and>
        0 < hops conns from (at_nest w) \<and>
        walk conns (hops conns from (at_nest w) - 1) h (at_nest w)"
proof -
  note a = assms [unfolded bfs_inv_def]
  show "i < length work" using a by (elim conjE)
  show "hd work = \<lparr>at_nest = from, via = None\<rparr>" using a by (elim conjE)
  show "distinct (map at_nest work)" using a by (elim conjE)
  show "\<And>x. x \<in> at_nest ` set work \<Longrightarrow> reach conns from x" using a by (elim conjE) blast
  show "sorted (map (\<lambda>w. hops conns from (at_nest w)) work)" using a by (elim conjE)
  show "\<And>x. x \<in> at_nest ` set work \<Longrightarrow> hops conns from x \<le> hops conns from (at_nest (work ! i)) + 1"
    using a by (elim conjE) blast
  show "\<And>p. reach conns from p \<Longrightarrow> hops conns from p < hops conns from (at_nest (work ! i))
        \<Longrightarrow> p \<in> at_nest ` set (take i work)" using a by (elim conjE) blast
  show "\<And>y x. y \<in> at_nest ` set (take i work) \<Longrightarrow> x \<in> set (get_or_empty conns y)
        \<Longrightarrow> x \<noteq> to \<and> x \<in> at_nest ` set work" using a by (elim conjE) blast
  show "\<And>x. x \<in> set pre \<Longrightarrow> x \<noteq> to \<and> x \<in> at_nest ` set work" using a by (elim conjE) blast
  show "\<And>w. w \<in> set (tl work) \<Longrightarrow> \<exists>h. via w = Some h \<and> h \<noteq> [] \<and> h \<in> set (get_or_empty conns from) \<and>
        0 < hops conns from (at_nest w) \<and>
        walk conns (hops conns from (at_nest w) - 1) h (at_nest w)"
    using a by (elim conjE) (erule (1) bspec)
qed

lemma bfs_inv_init: "bfs_inv conns from to 0 [] [\<lparr>at_nest = from, via = None\<rparr>]"
  by (simp add: bfs_inv_def reach_from hops_from)

lemma bfs_inv_current:
  assumes "bfs_inv conns from to i pre work"
  shows "at_nest (work ! i) \<in> at_nest ` set work" "reach conns from (at_nest (work ! i))"
    "at_nest (work ! 0) = from" "from \<in> at_nest ` set work"
proof -
  note inv = bfs_invD [OF assms]
  show a: "at_nest (work ! i) \<in> at_nest ` set work" using inv(1) by simp
  then show "reach conns from (at_nest (work ! i))" by (rule inv(4))
  from inv(1,2) show f: "at_nest (work ! 0) = from" by (cases work) simp_all
  from inv(1) have "work ! 0 \<in> set work" by (cases work) simp_all
  with f show "from \<in> at_nest ` set work" by force
qed

lemma bfs_fresh_hops:
  assumes inv: "bfs_inv conns from to i pre work"
    and x: "x \<in> set (get_or_empty conns (at_nest (work ! i)))" "x \<notin> at_nest ` set work"
  shows "hops conns from x = hops conns from (at_nest (work ! i)) + 1"
proof -
  note I = bfs_invD [OF inv] and cur = bfs_inv_current [OF inv]
  have rx: "reach conns from x" using reach_step [OF cur(2) x(1)] .
  have le: "hops conns from x \<le> hops conns from (at_nest (work ! i)) + 1"
    using hops_step [OF cur(2) x(1)] .
  have "\<not> hops conns from x \<le> hops conns from (at_nest (work ! i))"
  proof
    assume small: "hops conns from x \<le> hops conns from (at_nest (work ! i))"
    have "hops conns from x \<noteq> 0"
      using hops_0 [OF rx] cur(4) x(2) by auto
    then obtain d where d: "hops conns from x = Suc d" by (cases "hops conns from x") auto
    from hops_pred [OF rx d] obtain y where y: "reach conns from y" "hops conns from y = d"
      "x \<in> set (get_or_empty conns y)" by blast
    from y(2) d small have "hops conns from y < hops conns from (at_nest (work ! i))" by simp
    from I(7) [OF y(1) this] have "y \<in> at_nest ` set (take i work)" .
    from I(8) [OF this y(3)] x(2) show False by simp
  qed
  with le show ?thesis by simp
qed


lemma bfs_invI:
  assumes "i < length work" and "hd work = \<lparr>at_nest = from, via = None\<rparr>"
    and "distinct (map at_nest work)"
    and "\<And>x. x \<in> at_nest ` set work \<Longrightarrow> reach conns from x"
    and "sorted (map (\<lambda>w. hops conns from (at_nest w)) work)"
    and "\<And>x. x \<in> at_nest ` set work \<Longrightarrow> hops conns from x \<le> hops conns from (at_nest (work ! i)) + 1"
    and "\<And>p. reach conns from p \<Longrightarrow> hops conns from p < hops conns from (at_nest (work ! i))
        \<Longrightarrow> p \<in> at_nest ` set (take i work)"
    and "\<And>y x. y \<in> at_nest ` set (take i work) \<Longrightarrow> x \<in> set (get_or_empty conns y)
        \<Longrightarrow> x \<noteq> to \<and> x \<in> at_nest ` set work"
    and "\<And>x. x \<in> set pre \<Longrightarrow> x \<noteq> to \<and> x \<in> at_nest ` set work"
    and "\<And>w. w \<in> set (tl work) \<Longrightarrow> \<exists>h. via w = Some h \<and> h \<noteq> [] \<and> h \<in> set (get_or_empty conns from) \<and>
        0 < hops conns from (at_nest w) \<and>
        walk conns (hops conns from (at_nest w) - 1) h (at_nest w)"
  shows "bfs_inv conns from to i pre work"
  unfolding bfs_inv_def
proof (intro conjI)
  show "i < length work" by (rule assms(1))
  show "hd work = \<lparr>at_nest = from, via = None\<rparr>" by (rule assms(2))
  show "distinct (map at_nest work)" by (rule assms(3))
  show "\<forall>x\<in>at_nest ` set work. reach conns from x" using assms(4) by blast
  show "sorted (map (\<lambda>w. hops conns from (at_nest w)) work)" by (rule assms(5))
  show "\<forall>x\<in>at_nest ` set work. hops conns from x \<le> hops conns from (at_nest (work ! i)) + 1"
    using assms(6) by blast
  show "\<forall>p. reach conns from p \<and> hops conns from p < hops conns from (at_nest (work ! i))
        \<longrightarrow> p \<in> at_nest ` set (take i work)" using assms(7) by blast
  show "\<forall>y\<in>at_nest ` set (take i work). \<forall>x\<in>set (get_or_empty conns y).
        x \<noteq> to \<and> x \<in> at_nest ` set work" using assms(8) by blast
  show "\<forall>x\<in>set pre. x \<noteq> to \<and> x \<in> at_nest ` set work" using assms(9) by blast
  show "\<forall>w\<in>set (tl work). \<exists>h. via w = Some h \<and> h \<noteq> [] \<and> h \<in> set (get_or_empty conns from) \<and>
        0 < hops conns from (at_nest w) \<and>
        walk conns (hops conns from (at_nest w) - 1) h (at_nest w)"
    by (rule ballI) (erule assms(10))
qed

lemma bfs_inv_skip:
  assumes inv: "bfs_inv conns from to i pre work" and x: "x \<noteq> to" "x \<in> at_nest ` set work"
  shows "bfs_inv conns from to i (pre @ [x]) work"
proof -
  note I = bfs_invD [OF inv]
  show ?thesis
  proof (rule bfs_invI)
    show "\<And>y. y \<in> set (pre @ [x]) \<Longrightarrow> y \<noteq> to \<and> y \<in> at_nest ` set work"
      using I(9) x by auto
  qed (fact I)+
qed

lemma bfs_inv_push:
  assumes inv: "bfs_inv conns from to i pre work"
    and nonempty: "[] \<notin> set (get_or_empty conns from)"
    and x: "x \<in> set (get_or_empty conns (at_nest (work ! i)))" "x \<noteq> to" "x \<notin> at_nest ` set work"
  shows "bfs_inv conns from to i (pre @ [x])
    (work @ [\<lparr>at_nest = x, via = js_or (via (work ! i)) x\<rparr>])"
proof -
  note I = bfs_invD [OF inv] and cur = bfs_inv_current [OF inv]
  let ?cur = "at_nest (work ! i)"
  let ?w = "\<lparr>at_nest = x, via = js_or (via (work ! i)) x\<rparr>"
  let ?work = "work @ [?w]"
  have hx: "hops conns from x = hops conns from ?cur + 1"
    using bfs_fresh_hops [OF inv x(1,3)] .
  have ne: "work \<noteq> []" using I(1) by auto
  have nth: "?work ! i = work ! i" using I(1) by (simp add: nth_append)
  have ats: "at_nest ` set ?work = insert x (at_nest ` set work)" by auto
  show ?thesis
  proof (rule bfs_invI)
    show "i < length ?work" using I(1) by simp
    show "hd ?work = \<lparr>at_nest = from, via = None\<rparr>" using I(2) ne by simp
    show "distinct (map at_nest ?work)" using I(3) x(3) by simp
    show "\<And>y. y \<in> at_nest ` set ?work \<Longrightarrow> reach conns from y"
      unfolding ats using I(4) reach_step [OF cur(2) x(1)] by blast
    show "sorted (map (\<lambda>w. hops conns from (at_nest w)) ?work)"
      using I(5) I(6) hx by (auto simp: sorted_append)
    show "\<And>y. y \<in> at_nest ` set ?work \<Longrightarrow> hops conns from y \<le> hops conns from (at_nest (?work ! i)) + 1"
      unfolding ats nth using I(6) hx by auto
    show "\<And>p. reach conns from p \<Longrightarrow> hops conns from p < hops conns from (at_nest (?work ! i))
        \<Longrightarrow> p \<in> at_nest ` set (take i ?work)"
      unfolding nth using I(7) I(1) by simp
    show "\<And>y z. y \<in> at_nest ` set (take i ?work) \<Longrightarrow> z \<in> set (get_or_empty conns y)
        \<Longrightarrow> z \<noteq> to \<and> z \<in> at_nest ` set ?work"
      unfolding ats using I(8) I(1) by simp
    show "\<And>y. y \<in> set (pre @ [x]) \<Longrightarrow> y \<noteq> to \<and> y \<in> at_nest ` set ?work"
      unfolding ats using I(9) x(2) by auto
    show "\<exists>h. via w = Some h \<and> h \<noteq> [] \<and> h \<in> set (get_or_empty conns from) \<and>
        0 < hops conns from (at_nest w) \<and>
        walk conns (hops conns from (at_nest w) - 1) h (at_nest w)"
      if w: "w \<in> set (tl ?work)" for w
    proof (cases "w \<in> set (tl work)")
      case True
      then show ?thesis by (rule I(10))
    next
      case False
      with w ne have w_def: "w = ?w" by simp
      show ?thesis
      proof (cases "i = 0")
        case True
        with I(2) ne have "work ! i = \<lparr>at_nest = from, via = None\<rparr>" by (simp add: hd_conv_nth)
        then have v: "via w = Some x" and xf: "x \<in> set (get_or_empty conns from)"
          using x(1) by (simp_all add: w_def js_or_def falsy_def)
        from xf nonempty have "x \<noteq> []" by auto
        moreover have "hops conns from x = 1" using hx True cur(3) hops_from [of conns "from"] by simp
        ultimately show ?thesis using v xf by (simp add: w_def)
      next
        case False
        with I(1) have "work ! i \<in> set (tl work)"
          by (cases work) (auto simp: nth_Cons')
        from I(10) [OF this] obtain h where h: "via (work ! i) = Some h" "h \<noteq> []"
          "h \<in> set (get_or_empty conns from)" "0 < hops conns from ?cur"
          "walk conns (hops conns from ?cur - 1) h ?cur" by blast
        have "walk conns (Suc (hops conns from ?cur - 1)) h x"
          using walk_snoc [OF h(5) x(1)] .
        with h(4) have "walk conns (hops conns from x - 1) h x" using hx by simp
        moreover have "via w = Some h" using h(1,2) by (simp add: w_def js_or_def falsy_def)
        ultimately show ?thesis using h(2,3) hx by (simp add: w_def)
      qed
    qed
  qed
qed


lemma scan_inv:
  assumes nonempty: "[] \<notin> set (get_or_empty conns from)"
  shows "bfs_inv conns from to i pre work \<Longrightarrow>
    set rest \<subseteq> set (get_or_empty conns (at_nest (work ! i))) \<Longrightarrow>
    (case scan to (via (work ! i)) rest work of
       Continue work' \<Rightarrow> bfs_inv conns from to i (pre @ rest) work' \<and> work' ! i = work ! i
     | Return r work' \<Rightarrow> r = via (work ! i) \<and> to \<in> set rest \<and>
         (\<exists>pre'. bfs_inv conns from to i pre' work') \<and> work' ! i = work ! i)"
proof (induction rest arbitrary: pre work)
  case Nil
  then show ?case by simp
next
  case (Cons x rest)
  note inv = Cons.prems(1)
  from Cons.prems(2) have x: "x \<in> set (get_or_empty conns (at_nest (work ! i)))"
    and rest: "set rest \<subseteq> set (get_or_empty conns (at_nest (work ! i)))" by auto
  show ?case
  proof (cases "x = to")
    case True
    with inv show ?thesis by auto
  next
    case False
    show ?thesis
    proof (cases "x \<in> at_nest ` set work")
      case True
      then have ex: "list_ex (\<lambda>w. at_nest w = x) work" by (auto simp: list_ex_iff)
      from Cons.IH [OF bfs_inv_skip [OF inv False True] rest]
      show ?thesis using False ex by (auto split: scan_result.splits)
    next
      case fresh: False
      then have ex: "\<not> list_ex (\<lambda>w. at_nest w = x) work" by (auto simp: list_ex_iff)
      let ?work = "work @ [\<lparr>at_nest = x, via = js_or (via (work ! i)) x\<rparr>]"
      have nth: "?work ! i = work ! i" using bfs_invD(1) [OF inv] by (simp add: nth_append)
      have "set rest \<subseteq> set (get_or_empty conns (at_nest (?work ! i)))"
        unfolding nth by (rule rest)
      from Cons.IH [OF bfs_inv_push [OF inv nonempty x False fresh] this]
      show ?thesis unfolding nth using False ex by (auto split: scan_result.splits)
    qed
  qed
qed

lemma bfs_inv_advance:
  assumes inv: "bfs_inv conns from to i (get_or_empty conns (at_nest (work ! i))) work"
    and more: "Suc i < length work"
  shows "bfs_inv conns from to (Suc i) [] work"
proof -
  note I = bfs_invD [OF inv] and cur = bfs_inv_current [OF inv]
  let ?h = "\<lambda>j. hops conns from (at_nest (work ! j))"
  have sorted_nth: "?h j \<le> ?h k" if "j \<le> k" "k < length work" for j k
    using sorted_nth_mono [OF I(5), of j k] that by simp
  have take_Suc: "take (Suc i) work = take i work @ [work ! i]"
    using I(1) by (simp add: take_Suc_conv_app_nth)
  show ?thesis
  proof (rule bfs_invI)
    show "Suc i < length work" by (rule more)
    show "\<And>x. x \<in> at_nest ` set work \<Longrightarrow> hops conns from x \<le> ?h (Suc i) + 1"
      using I(6) sorted_nth [of i "Suc i"] more by fastforce
    show "p \<in> at_nest ` set (take (Suc i) work)"
      if p: "reach conns from p" "hops conns from p < ?h (Suc i)" for p
    proof (cases "hops conns from p < ?h i")
      case True
      from I(7) [OF p(1) this] show ?thesis unfolding take_Suc by auto
    next
      case False
      have "p \<in> at_nest ` set work"
      proof (cases "hops conns from p")
        case 0
        with hops_0 [OF p(1)] cur(4) show ?thesis by simp
      next
        case (Suc d)
        from hops_pred [OF p(1) Suc] obtain q where q: "reach conns from q" "hops conns from q = d"
          "p \<in> set (get_or_empty conns q)" by blast
        have "?h (Suc i) \<le> ?h i + 1" using I(6) [of "at_nest (work ! Suc i)"] more by simp
        with p(2) Suc q(2) have "hops conns from q < ?h i" by simp
        from I(8) [OF I(7) [OF q(1) this] q(3)] show ?thesis by simp
      qed
      then obtain k where k: "k < length work" "at_nest (work ! k) = p"
        by (auto simp: in_set_conv_nth)
      have "k \<le> i"
      proof (rule ccontr)
        assume "\<not> k \<le> i"
        then have "Suc i \<le> k" by simp
        from sorted_nth [OF this k(1)] p(2) k(2) show False by simp
      qed
      then have "work ! k \<in> set (take (Suc i) work)"
        using k(1) by (auto simp: in_set_conv_nth intro!: exI [of _ k])
      with k(2) show ?thesis by force
    qed
    show "\<And>y x. y \<in> at_nest ` set (take (Suc i) work) \<Longrightarrow> x \<in> set (get_or_empty conns y)
        \<Longrightarrow> x \<noteq> to \<and> x \<in> at_nest ` set work"
      unfolding take_Suc using I(8) I(9) by auto
    show "\<And>x. x \<in> set [] \<Longrightarrow> x \<noteq> to \<and> x \<in> at_nest ` set work" by simp
  qed (fact I)+
qed

lemma bfs_inv_exhausted:
  assumes inv: "bfs_inv conns from to i (get_or_empty conns (at_nest (work ! i))) work"
    and last: "Suc i = length work"
  shows "\<not> walk conns (Suc n) from to"
proof
  note I = bfs_invD [OF inv] and cur = bfs_inv_current [OF inv]
  have work: "work = take i work @ [work ! i]"
    using last by (metis lessI take_Suc_conv_app_nth take_all order_refl)
  have closed: "x \<noteq> to \<and> x \<in> at_nest ` set work"
    if "y \<in> at_nest ` set work" "x \<in> set (get_or_empty conns y)" for x y
  proof -
    from that(1) have "y \<in> at_nest ` set (take i work) \<or> y = at_nest (work ! i)"
      by (subst (asm) work) auto
    then show ?thesis using I(8) I(9) that(2) by blast
  qed
  have inside: "walk conns m from y \<Longrightarrow> y \<in> at_nest ` set work" for m y
  proof (induction m arbitrary: y)
    case 0
    then show ?case using cur(4) by simp
  next
    case (Suc m)
    from walk_last [OF Suc.prems] obtain z where "walk conns m from z" "y \<in> set (get_or_empty conns z)"
      by blast
    with Suc.IH closed show ?case by blast
  qed
  assume "walk conns (Suc n) from to"
  from walk_last [OF this] obtain y where "walk conns n from y" "to \<in> set (get_or_empty conns y)"
    by blast
  with inside closed show False by blast
qed

lemma bfs_inv_found:
  assumes inv: "bfs_inv conns from to i pre work"
    and found: "to \<in> set (get_or_empty conns (at_nest (work ! i)))"
  shows "first_hop_ok conns from to (via (work ! i))"
proof (cases "i = 0")
  case True
  note I = bfs_invD [OF inv] and cur = bfs_inv_current [OF inv]
  from I(1,2) True have "work ! i = \<lparr>at_nest = from, via = None\<rparr>"
    by (cases work) simp_all
  with found show ?thesis by (simp add: first_hop_ok_def)
next
  case False
  note I = bfs_invD [OF inv] and cur = bfs_inv_current [OF inv]
  let ?cur = "at_nest (work ! i)"
  from False I(1) have "work ! i \<in> set (tl work)"
    by (cases work) (auto simp: nth_Cons')
  from I(10) [OF this] obtain h where h: "via (work ! i) = Some h" "h \<noteq> []"
    "h \<in> set (get_or_empty conns from)" "0 < hops conns from ?cur"
    "walk conns (hops conns from ?cur - 1) h ?cur" by blast
  have "walk conns (Suc (hops conns from ?cur - 1)) h to"
    using walk_snoc [OF h(5) found] .
  with h(4) have w: "walk conns (hops conns from ?cur) h to" by simp
  with h(3) have pos: "walk conns (Suc (hops conns from ?cur)) from to" by auto
  have "work ! 0 \<in> set (take i work)"
    using False I(1) by (auto simp: in_set_conv_nth intro!: exI [of _ 0])
  with cur(3) have "from \<in> at_nest ` set (take i work)" by force
  from I(8) [OF this] have direct: "to \<notin> set (get_or_empty conns from)" by blast
  have short: "hops conns from ?cur \<le> m" if "walk conns (Suc m) from to" for m
  proof -
    from walk_last [OF that] obtain y where y: "walk conns m from y" "to \<in> set (get_or_empty conns y)"
      by blast
    then have r: "reach conns from y" by (auto simp: reach_def)
    have "\<not> hops conns from y < hops conns from ?cur"
      using I(8) [OF I(7) [OF r] y(2)] by blast
    with hops_le [OF y(1)] show ?thesis by simp
  qed
  show ?thesis
    unfolding first_hop_ok_def h(1) using h(3) w pos direct short by blast
qed

lemma findRoute_loop_correct:
  "[] \<notin> set (get_or_empty conns from) \<Longrightarrow> bfs_inv conns from to i [] work \<Longrightarrow>
    first_hop_ok conns from to (fst (findRoute_loop to conns i work)) \<and>
    distinct (map at_nest (snd (findRoute_loop to conns i work)))"
proof (induction to conns i work rule: findRoute_loop.induct)
  case (1 to conns i work)
  note nonempty = "1.prems"(1) and inv = "1.prems"(2)
  note I = bfs_invD [OF inv]
  let ?adj = "get_or_empty conns (at_nest (work ! i))"
  note sc = scan_inv [OF nonempty inv subset_refl, simplified]
  show ?case
  proof (cases "scan to (via (work ! i)) ?adj work")
    case (Return r work')
    with sc obtain pre' where r: "r = via (work ! i)" "to \<in> set ?adj"
      "bfs_inv conns from to i pre' work'" "work' ! i = work ! i" by auto
    from bfs_inv_found [OF r(3)] r(1,2,4) have "first_hop_ok conns from to r" by simp
    moreover have "distinct (map at_nest work')" using bfs_invD(3) [OF r(3)] .
    ultimately show ?thesis
      using I(1) Return by (subst (1 2) findRoute_loop.simps) simp
  next
    case (Continue work')
    with sc have c: "bfs_inv conns from to i ?adj work'" "work' ! i = work ! i" by auto
    then have inv': "bfs_inv conns from to i (get_or_empty conns (at_nest (work' ! i))) work'"
      by simp
    have unfold: "findRoute_loop to conns i work = findRoute_loop to conns (i + 1) work'"
      using I(1) Continue by (subst findRoute_loop.simps) simp
    show ?thesis
    proof (cases "Suc i < length work'")
      case True
      from "1.IH" [OF I(1) Continue nonempty] bfs_inv_advance [OF inv' True]
      show ?thesis unfolding unfold by simp
    next
      case False
      with bfs_invD(1) [OF c(1)] have last: "Suc i = length work'" by simp
      then have stop: "findRoute_loop to conns (i + 1) work' = (None, work')"
        by (subst findRoute_loop.simps) simp
      have "\<forall>n. \<not> walk conns (Suc n) from to"
        using bfs_inv_exhausted [OF inv' last] by blast
      then show ?thesis
        unfolding unfold stop using bfs_invD(3) [OF c(1)] by (simp add: first_hop_ok_def)
    qed
  qed
qed


text \<open>
  The array \<open>work\<close> never holds a name twice, whatever the table: an entry is pushed
  only for a name that no entry has.
\<close>

lemma scan_distinct:
  "distinct (map at_nest work) \<Longrightarrow>
   scan to v ns work = Return r work' \<or> scan to v ns work = Continue work' \<Longrightarrow>
   distinct (map at_nest work')"
proof (induction ns arbitrary: work)
  case Nil
  then show ?case by simp
next
  case (Cons n ns)
  show ?case
  proof (cases "n = to")
    case True
    with Cons.prems show ?thesis by simp
  next
    case False
    show ?thesis
    proof (cases "list_ex (\<lambda>w. at_nest w = n) work")
      case True
      with Cons.prems(2) False
      have "scan to v ns work = Return r work' \<or> scan to v ns work = Continue work'" by simp
      from Cons.IH [OF Cons.prems(1) this] show ?thesis .
    next
      case fresh: False
      let ?work = "work @ [\<lparr>at_nest = n, via = js_or v n\<rparr>]"
      from fresh have "n \<notin> at_nest ` set work" by (auto simp: list_ex_iff)
      with Cons.prems(1) have d: "distinct (map at_nest ?work)" by simp
      from Cons.prems(2) False fresh
      have "scan to v ns ?work = Return r work' \<or> scan to v ns ?work = Continue work'" by simp
      from Cons.IH [OF d this] show ?thesis .
    qed
  qed
qed

lemma findRoute_loop_distinct:
  "distinct (map at_nest work) \<Longrightarrow> distinct (map at_nest (snd (findRoute_loop to conns i work)))"
proof (induction to conns i work rule: findRoute_loop.induct)
  case (1 to conns i work)
  show ?case
  proof (cases "i < length work")
    case False
    then show ?thesis using "1.prems" by (subst findRoute_loop.simps) simp
  next
    case True
    let ?scan = "scan to (via (work ! i)) (get_or_empty conns (at_nest (work ! i))) work"
    show ?thesis
    proof (cases ?scan)
      case (Return r work')
      then have "distinct (map at_nest work')"
        using scan_distinct [OF "1.prems", of to "via (work ! i)" _ r work'] by blast
      then show ?thesis using True Return by (subst findRoute_loop.simps) simp
    next
      case (Continue work')
      then have "distinct (map at_nest work')"
        using scan_distinct [OF "1.prems", of to "via (work ! i)" _ _ work'] by blast
      from "1.IH" [OF True Continue this] show ?thesis
        using True Continue by (subst findRoute_loop.simps) simp
    qed
  qed
qed

text \<open>
  C2 (amended).  \<open>findRoute\<close> is a total function (its loops end for every table,
  source and target), and for every table, source and target no name is in the array
  \<open>work\<close> twice.  Provided no neighbour listed for the source has the empty name:
  it returns \<^verbatim>\<open>null\<close> exactly when the target is listed as a neighbour of the source
  or no walk of one or more steps leads from the source to the target; and when it
  returns a name, that is a neighbour listed for the source from which a walk of \<open>n\<close>
  steps leads to the target, where no walk of one or more steps from the source to the
  target has fewer than \<open>n + 1\<close> steps.
\<close>

theorem findRoute_first_hop:
  "distinct (map at_nest (snd (findRoute_run from to conns))) \<and>
   ([] \<notin> set (get_or_empty conns from) \<longrightarrow>
      (findRoute from to conns = None \<longleftrightarrow>
         (to \<in> set (get_or_empty conns from) \<or> (\<forall>n. \<not> walk conns (Suc n) from to))) \<and>
      (\<forall>hop. findRoute from to conns = Some hop \<longrightarrow>
         hop \<in> set (get_or_empty conns from) \<and>
         (\<exists>n. walk conns n hop to \<and> (\<forall>m. walk conns (Suc m) from to \<longrightarrow> n \<le> m))))"
proof
  show "distinct (map at_nest (snd (findRoute_run from to conns)))"
    unfolding findRoute_run_def by (rule findRoute_loop_distinct) simp
  show "[] \<notin> set (get_or_empty conns from) \<longrightarrow>
      (findRoute from to conns = None \<longleftrightarrow>
         (to \<in> set (get_or_empty conns from) \<or> (\<forall>n. \<not> walk conns (Suc n) from to))) \<and>
      (\<forall>hop. findRoute from to conns = Some hop \<longrightarrow>
         hop \<in> set (get_or_empty conns from) \<and>
         (\<exists>n. walk conns n hop to \<and> (\<forall>m. walk conns (Suc m) from to \<longrightarrow> n \<le> m)))"
    using findRoute_loop_correct [OF _ bfs_inv_init, of conns "from" to]
    unfolding findRoute_def findRoute_run_def first_hop_ok_def by blast
qed

theorem findRoute_first_hop_witness:
  "[] \<notin> set (get_or_empty line_table ''A'') \<and>
   findRoute ''A'' ''D'' line_table = Some ''B'' \<and>
   ''B'' \<in> set (get_or_empty line_table ''A'') \<and>
   (\<exists>n. walk line_table n ''B'' ''D'' \<and> (\<forall>m. walk line_table (Suc m) ''A'' ''D'' \<longrightarrow> n \<le> m)) \<and>
   distinct (map at_nest (snd (findRoute_run ''A'' ''D'' line_table))) \<and>
   findRoute ''A'' ''Z'' line_table = None \<and>
   (\<forall>n. \<not> walk line_table (Suc n) ''A'' ''Z'') \<and>
   [] \<in> set (get_or_empty empty_name_table ''A'') \<and>
   distinct (map at_nest (snd (findRoute_run ''A'' ''C'' empty_name_table)))"
proof -
  have ne: "[] \<notin> set (get_or_empty line_table ''A'')"
    and nz: "''Z'' \<notin> set (get_or_empty line_table ''A'')"
    and e: "[] \<in> set (get_or_empty empty_name_table ''A'')"
    by (simp_all add: get_or_empty_def line_table_def empty_name_table_def)
  have D: "findRoute ''A'' ''D'' line_table = Some ''B''"
    and Z: "findRoute ''A'' ''Z'' line_table = None"
    by (simp_all add: line_table_def findRoute_eval)
  from findRoute_first_hop [of "''A''" "''D''" line_table] ne D
  have "''B'' \<in> set (get_or_empty line_table ''A'')"
    "\<exists>n. walk line_table n ''B'' ''D'' \<and> (\<forall>m. walk line_table (Suc m) ''A'' ''D'' \<longrightarrow> n \<le> m)"
    "distinct (map at_nest (snd (findRoute_run ''A'' ''D'' line_table)))"
    by blast+
  moreover from findRoute_first_hop [of "''A''" "''Z''" line_table] ne Z nz
  have "\<forall>n. \<not> walk line_table (Suc n) ''A'' ''Z''" by blast
  moreover from findRoute_first_hop [of "''A''" "''C''" empty_name_table]
  have "distinct (map at_nest (snd (findRoute_run ''A'' ''C'' empty_name_table)))" by blast
  ultimately show ?thesis using ne D Z e by blast
qed

text \<open>
  The claim C2 as stated fails: B is a neighbour of A, so it can be reached, and
  \<open>findRoute\<close> from A to B returns \<^verbatim>\<open>null\<close>.  And where the neighbour of A has
  the empty name, \<^verbatim>\<open>via || next\<close> loses it: the result for the target C is B, which
  is no neighbour of A.
\<close>

theorem findRoute_direct_neighbour_counterexample:
  "walk line_table 1 ''A'' ''B'' \<and> findRoute ''A'' ''B'' line_table = None \<and>
   findRoute ''A'' ''C'' empty_name_table = Some ''B'' \<and>
   ''B'' \<notin> set (get_or_empty empty_name_table ''A'')"
  by (simp add: line_table_def empty_name_table_def findRoute_eval)

text \<open>With the source as target, \<open>findRoute\<close> gives the first step of the shortest way round.\<close>

lemma findRoute_self_example: "findRoute ''A'' ''A'' line_table = Some ''B''"
  by (simp add: line_table_def findRoute_eval)

end
